theory Spec2Isabelle
  imports Complex_Main "HOL-Library.Sublist"
begin

section \<open>Strings and integers as the two scripts use them\<close>

text \<open>
  Python strings are modelled as \<^typ>\<open>string\<close>; only ASCII digits and ASCII white space
  are recognised (Python's \<^verbatim>\<open>\d\<close>, \<^verbatim>\<open>str.strip\<close> and number parsers also accept
  the non-ASCII members of those classes). Python integers are unbounded: \<^typ>\<open>int\<close>.
\<close>

definition is_digit :: "char \<Rightarrow> bool" where
  "is_digit c = (let n = (of_char c :: nat) in 48 \<le> n \<and> n \<le> 57)"

definition digit_val :: "char \<Rightarrow> nat" where
  "digit_val c = of_char c - 48"

text \<open>\<^verbatim>\<open>int(s)\<close> on a non-empty string of digits.\<close>

definition nat_of_digits :: "string \<Rightarrow> nat" where
  "nat_of_digits s = foldl (\<lambda>acc c. 10 * acc + digit_val c) 0 s"

text \<open>\<^verbatim>\<open>str.isspace\<close> on the ASCII range: TAB, LF, VT, FF, CR, FS, GS, RS, US and space.\<close>

definition is_space :: "char \<Rightarrow> bool" where
  "is_space c = (let n = (of_char c :: nat) in (9 \<le> n \<and> n \<le> 13) \<or> (28 \<le> n \<and> n \<le> 32))"

text \<open>\<^verbatim>\<open>s.strip()\<close>\<close>

definition strip :: "string \<Rightarrow> string" where
  "strip s = rev (dropWhile is_space (rev (dropWhile is_space s)))"

text \<open>\<^verbatim>\<open>pat in s\<close> for strings: \<open>pat\<close> occurs in \<open>s\<close> as a contiguous substring.\<close>

fun contains :: "string \<Rightarrow> string \<Rightarrow> bool" where
  "contains pat [] = (pat = [])"
| "contains pat (c # cs) = (prefix pat (c # cs) \<or> contains pat cs)"

text \<open>\<^verbatim>\<open>s.split('\n')\<close>: the pieces between line feeds; the empty string gives one empty piece.\<close>

fun split_nl :: "string \<Rightarrow> string list" where
  "split_nl [] = [[]]"
| "split_nl (c # cs) =
     (if c = CHR 0x0A then [] # split_nl cs
      else (case split_nl cs of [] \<Rightarrow> [[c]] | l # ls \<Rightarrow> (c # l) # ls))"

text \<open>\<^verbatim>\<open>str(n)\<close> for a natural number and for an integer.\<close>

definition digit_char :: "nat \<Rightarrow> char" where
  "digit_char d = ''0123456789'' ! d"

fun digits_of :: "nat \<Rightarrow> string" where
  "digits_of n =
     (if n < 10 then [digit_char n] else digits_of (n div 10) @ [digit_char (n mod 10)])"

declare digits_of.simps [simp del]

definition str_of_int :: "int \<Rightarrow> string" where
  "str_of_int i = (if i < 0 then CHR ''-'' # digits_of (nat (- i)) else digits_of (nat i))"

text \<open>Case folding of an ASCII letter, for the case-insensitive number syntax.\<close>

definition to_lower :: "char \<Rightarrow> char" where
  "to_lower c =
     (case map_of (zip ''ABCDEFGHIJKLMNOPQRSTUVWXYZ'' ''abcdefghijklmnopqrstuvwxyz'') c of
        None \<Rightarrow> c
      | Some l \<Rightarrow> l)"

section \<open>calculate\_src\_coverage.py\<close>

subsection \<open>The pattern of a coverage line\<close>

text \<open>
  \<^verbatim>\<open>re.search(r'(\d+\.\d+)% \((\d+)/(\d+)\)', line)\<close>. Every \<^verbatim>\<open>\d+\<close> of the pattern
  is followed by a literal that is not a digit, so at a fixed start position the greedy
  match takes the whole run of digits and no backtracking can succeed where it fails.
  \<open>match_here\<close> is the match anchored at the start of its argument, returning the three
  groups; \<open>re_search\<close> tries the start positions from left to right.
\<close>

definition span_digits :: "string \<Rightarrow> string \<times> string" where
  "span_digits s = (takeWhile is_digit s, dropWhile is_digit s)"

text \<open>One or more digits followed by the literal \<open>lit\<close>: the digits and the rest.\<close>

definition digits_then :: "string \<Rightarrow> string \<Rightarrow> (string \<times> string) option" where
  "digits_then lit s =
     (case span_digits s of (ds, r) \<Rightarrow>
        if ds \<noteq> [] \<and> prefix lit r then Some (ds, drop (length lit) r) else None)"

definition match_here :: "string \<Rightarrow> (string \<times> string \<times> string) option" where
  "match_here s =
     (case digits_then ''.'' s of None \<Rightarrow> None
      | Some (d1, r1) \<Rightarrow>
     (case digits_then ''% ('' r1 of None \<Rightarrow> None
      | Some (d2, r2) \<Rightarrow>
     (case digits_then ''/'' r2 of None \<Rightarrow> None
      | Some (d3, r3) \<Rightarrow>
     (case digits_then '')'' r3 of None \<Rightarrow> None
      | Some (d4, r4) \<Rightarrow> Some (d1 @ ''.'' @ d2, d3, d4)))))"

fun re_search :: "string \<Rightarrow> (string \<times> string \<times> string) option" where
  "re_search [] = match_here []"
| "re_search (c # cs) =
     (case match_here (c # cs) of Some m \<Rightarrow> Some m | None \<Rightarrow> re_search cs)"

subsection \<open>The accumulation loop\<close>

text \<open>
  The three module-level accumulators. An entry of \<open>files\<close> is the tuple
  \<^verbatim>\<open>(line.strip(), c, t, missing)\<close>.
\<close>

record cov_state =
  covered :: int
  total :: int
  files :: "(string \<times> int \<times> int \<times> int) list"

definition cov_init :: cov_state where
  "cov_init = \<lparr>covered = 0, total = 0, files = []\<rparr>"

text \<open>
  What one line contributes: nothing unless it contains \<^verbatim>\<open>'| src/'\<close> and the pattern
  is found in it; otherwise the values \<open>c\<close> and \<open>t\<close> of groups 2 and 3.
\<close>

definition parse_line :: "string \<Rightarrow> (int \<times> int) option" where
  "parse_line line =
     (if contains ''| src/'' line then
        (case re_search line of
           None \<Rightarrow> None
         | Some (pct, g2, g3) \<Rightarrow> Some (int (nat_of_digits g2), int (nat_of_digits g3)))
      else None)"

text \<open>The body of the \<^verbatim>\<open>for line in result.stdout.split('\n')\<close> loop.\<close>

definition scan_line :: "cov_state \<Rightarrow> string \<Rightarrow> cov_state" where
  "scan_line st line =
     (case parse_line line of
        None \<Rightarrow> st
      | Some (c, t) \<Rightarrow>
          (let st' = st\<lparr>covered := covered st + c, total := total st + t\<rparr>;
               missing = t - c
           in if missing > 0 then st'\<lparr>files := files st' @ [(strip line, c, t, missing)]\<rparr>
              else st'))"

definition scan_lines :: "string list \<Rightarrow> cov_state" where
  "scan_lines ls = foldl scan_line cov_init ls"

subsection \<open>The exit status\<close>

text \<open>
  \<^verbatim>\<open>subprocess.run\<close> either raises (the tool cannot be started, its output cannot be
  decoded), which ends the script with a traceback and status 1, or returns the captured
  standard output. The tool's own exit status is not read.
\<close>

datatype tool_run = Raised | Captured string

text \<open>
  The trailing block: \<^verbatim>\<open>sys.exit(0)\<close> or \<^verbatim>\<open>sys.exit(1)\<close> under \<^verbatim>\<open>if total > 0\<close>;
  with \<^verbatim>\<open>total == 0\<close> the script runs off its end, which is status 0. The printed
  percentages are floating point and are not modelled; the division
  \<^verbatim>\<open>covered / total\<close> raises only when the quotient exceeds the range of a float, and
  then \<open>covered \<noteq> total\<close>, so the status is 1 on either path.
\<close>

definition exit_status :: "cov_state \<Rightarrow> nat" where
  "exit_status st =
     (if total st > 0 then
        (let missing = total st - covered st in if missing = 0 then 0 else 1)
      else 0)"

definition coverage_main :: "tool_run \<Rightarrow> nat" where
  "coverage_main r =
     (case r of Raised \<Rightarrow> 1 | Captured out \<Rightarrow> exit_status (scan_lines (split_nl out)))"

text \<open>What a line adds to \<open>files\<close>, as a function of the line alone.\<close>

definition missing_entry :: "string \<Rightarrow> (string \<times> int \<times> int \<times> int) option" where
  "missing_entry line =
     (case parse_line line of
        None \<Rightarrow> None
      | Some (c, t) \<Rightarrow> if t > c then Some (strip line, c, t, t - c) else None)"

section \<open>The decimal arithmetic of prepare\_airdrop\_csv.py\<close>

text \<open>
  The script computes with Python's \<^verbatim>\<open>decimal.Decimal\<close> under the default context:
  precision 28, rounding \<^verbatim>\<open>ROUND_HALF_EVEN\<close>, \<^verbatim>\<open>Emax = 999999\<close>, \<^verbatim>\<open>Emin = -999999\<close>,
  traps \<^verbatim>\<open>InvalidOperation\<close>, \<^verbatim>\<open>DivisionByZero\<close> and \<^verbatim>\<open>Overflow\<close>. A finite
  Decimal is a sign, a coefficient and an exponent, and stands for
  \<open>(-1)^sign * coefficient * 10^exponent\<close>. The sign and the diagnostic of a NaN are
  dropped: no operation of the script reads them.
\<close>

datatype decimal =
    Finite bool nat int
  | Infinity bool
  | NaN
  | SNaN

text \<open>
  The exceptions that the modelled operations raise; \<open>URLError\<close> stands for every
  failure of the HTTP exchange and of decoding its body as JSON, \<open>RpcError\<close> for the
  \<^verbatim>\<open>Exception\<close> that \<^verbatim>\<open>get_token_decimals\<close> raises on an RPC error.
\<close>

datatype py_error =
    InvalidOperation
  | Overflow
  | ValueError
  | OverflowError
  | OSError
  | TypeError
  | KeyError
  | AttributeError
  | UnicodeDecodeError
  | URLError
  | RpcError

definition prec :: nat where "prec = 28"
definition Emax :: int where "Emax = 999999"
definition Emin :: int where "Emin = - 999999"
definition Etiny :: int where "Etiny = Emin - int prec + 1"
definition Etop :: int where "Etop = Emax - int prec + 1"

text \<open>\<^verbatim>\<open>len(str(n))\<close>: the number of decimal digits of a coefficient.\<close>

fun ndigits :: "nat \<Rightarrow> nat" where
  "ndigits n = (if n < 10 then 1 else Suc (ndigits (n div 10)))"

declare ndigits.simps [simp del]

text \<open>
  Dropping the last \<open>k\<close> digits of a coefficient under \<^verbatim>\<open>ROUND_HALF_EVEN\<close>: up when the
  dropped part is more than half a unit of the kept part, or exactly half with the kept
  part odd.
\<close>

definition round_half_even :: "nat \<Rightarrow> nat \<Rightarrow> nat" where
  "round_half_even c k =
     (let q = c div 10 ^ k; r = c mod 10 ^ k
      in if 2 * r > 10 ^ k \<or> (2 * r = 10 ^ k \<and> odd q) then q + 1 else q)"

text \<open>
  \<^verbatim>\<open>Decimal._fix\<close>: the rounding of an exact result to the context. A zero keeps its
  sign and has its exponent clamped; a result whose adjusted exponent exceeds \<open>Emax\<close>
  raises \<open>Overflow\<close>; a coefficient of more than \<open>prec\<close> digits, or an exponent below
  \<open>Etiny\<close>, is rounded half-even (inexact, rounded and subnormal results only set flags).
\<close>

definition dec_fix :: "decimal \<Rightarrow> py_error + decimal" where
  "dec_fix x =
     (case x of
        Finite s c e \<Rightarrow>
          if c = 0 then Inr (Finite s 0 (min (max e Etiny) Emax))
          else
            let exp_min0 = int (ndigits c) + e - int prec in
            if exp_min0 > Etop then Inl Overflow
            else
              let exp_min = (if exp_min0 < Etiny then Etiny else exp_min0) in
              if e < exp_min then
                (let coeff = round_half_even c (nat (exp_min - e)) in
                 if ndigits coeff > prec then
                   (if exp_min + 1 > Etop then Inl Overflow
                    else Inr (Finite s (coeff div 10) (exp_min + 1)))
                 else Inr (Finite s coeff exp_min))
              else Inr x
      | _ \<Rightarrow> Inr x)"

text \<open>\<^verbatim>\<open>Decimal(n)\<close> for an integer \<open>n\<close>: exact.\<close>

definition Decimal_of_int :: "int \<Rightarrow> decimal" where
  "Decimal_of_int n = Finite (n < 0) (nat \<bar>n\<bar>) 0"

text \<open>\<^verbatim>\<open>x * y\<close>\<close>

fun dec_mul :: "decimal \<Rightarrow> decimal \<Rightarrow> py_error + decimal" where
  "dec_mul SNaN y = Inl InvalidOperation"
| "dec_mul x SNaN = Inl InvalidOperation"
| "dec_mul NaN y = Inr NaN"
| "dec_mul x NaN = Inr NaN"
| "dec_mul (Infinity s) (Infinity t) = Inr (Infinity (s \<noteq> t))"
| "dec_mul (Infinity s) (Finite t c e) =
     (if c = 0 then Inl InvalidOperation else Inr (Infinity (s \<noteq> t)))"
| "dec_mul (Finite s c e) (Infinity t) =
     (if c = 0 then Inl InvalidOperation else Inr (Infinity (s \<noteq> t)))"
| "dec_mul (Finite s1 c1 e1) (Finite s2 c2 e2) =
     dec_fix (Finite (s1 \<noteq> s2) (c1 * c2) (e1 + e2))"

text \<open>
  \<^verbatim>\<open>x + y\<close>: the exact sum at the smaller exponent, then rounded to the context. An
  exact zero is negative only when both operands are negative.
\<close>

definition signed :: "bool \<Rightarrow> nat \<Rightarrow> int" where
  "signed s c = (if s then - int c else int c)"

fun dec_add :: "decimal \<Rightarrow> decimal \<Rightarrow> py_error + decimal" where
  "dec_add SNaN y = Inl InvalidOperation"
| "dec_add x SNaN = Inl InvalidOperation"
| "dec_add NaN y = Inr NaN"
| "dec_add x NaN = Inr NaN"
| "dec_add (Infinity s) (Infinity t) =
     (if s \<noteq> t then Inl InvalidOperation else Inr (Infinity s))"
| "dec_add (Infinity s) (Finite t c e) = Inr (Infinity s)"
| "dec_add (Finite s c e) (Infinity t) = Inr (Infinity t)"
| "dec_add (Finite s1 c1 e1) (Finite s2 c2 e2) =
     (let e = min e1 e2;
          n = signed s1 c1 * 10 ^ nat (e1 - e) + signed s2 c2 * 10 ^ nat (e2 - e)
      in dec_fix (Finite (if n = 0 then s1 \<and> s2 else n < 0) (nat \<bar>n\<bar>) e))"

text \<open>
  \<^verbatim>\<open>x.to_integral_value(rounding=ROUND_DOWN)\<close>: digits after the point are dropped;
  the context precision does not apply.
\<close>

fun to_integral_value_down :: "decimal \<Rightarrow> py_error + decimal" where
  "to_integral_value_down SNaN = Inl InvalidOperation"
| "to_integral_value_down (Finite s c e) =
     (if e \<ge> 0 then Inr (Finite s c e)
      else if c = 0 then Inr (Finite s 0 0)
      else Inr (Finite s (c div 10 ^ nat (- e)) 0))"
| "to_integral_value_down x = Inr x"

text \<open>\<^verbatim>\<open>int(x)\<close>: truncation towards zero; a NaN and an infinity raise.\<close>

fun int_of_decimal :: "decimal \<Rightarrow> py_error + int" where
  "int_of_decimal (Finite s c e) =
     (if e \<ge> 0 then Inr (signed s (c * 10 ^ nat e))
      else Inr (signed s (c div 10 ^ nat (- e))))"
| "int_of_decimal (Infinity s) = Inl OverflowError"
| "int_of_decimal x = Inl ValueError"

text \<open>The rational number a finite Decimal stands for.\<close>

fun dec_val :: "decimal \<Rightarrow> rat" where
  "dec_val (Finite s c e) = of_int (signed s c) * 10 powi e"
| "dec_val x = 0"

text \<open>Rounding towards zero.\<close>

definition trunc :: "rat \<Rightarrow> int" where
  "trunc q = (if q \<ge> 0 then \<lfloor>q\<rfloor> else \<lceil>q\<rceil>)"

subsection \<open>Reading and printing a Decimal\<close>

text \<open>
  \<^verbatim>\<open>Decimal(s)\<close> for a string: white space at both ends and every underscore are
  removed; then, case-insensitively, an optional sign followed by \<^verbatim>\<open>Inf\<close>,
  \<^verbatim>\<open>Infinity\<close>, \<^verbatim>\<open>NaN\<close> or \<^verbatim>\<open>sNaN\<close> with optional diagnostic digits, or by a
  number: digits with an optional point, at least one digit in all, and an optional
  exponent \<^verbatim>\<open>E[+-]digits\<close>. The conversion is exact. \<open>None\<close> stands for the
  \<^verbatim>\<open>InvalidOperation\<close> raised on any other string.
\<close>

definition all_digits :: "string \<Rightarrow> bool" where
  "all_digits s = (s \<noteq> [] \<and> list_all is_digit s)"

definition parse_exponent :: "string \<Rightarrow> int option" where
  "parse_exponent s =
     (case s of
        [] \<Rightarrow> None
      | c # r \<Rightarrow>
          if c = CHR ''-'' then (if all_digits r then Some (- int (nat_of_digits r)) else None)
          else if c = CHR ''+'' then (if all_digits r then Some (int (nat_of_digits r)) else None)
          else if all_digits s then Some (int (nat_of_digits s)) else None)"

definition parse_number :: "string \<Rightarrow> (nat \<times> int) option" where
  "parse_number s =
     (let intpart = takeWhile is_digit s;
          r1 = dropWhile is_digit s;
          point = (r1 \<noteq> [] \<and> hd r1 = CHR ''.'');
          fracpart = (if point then takeWhile is_digit (tl r1) else []);
          r2 = (if point then dropWhile is_digit (tl r1) else r1)
      in if intpart = [] \<and> fracpart = [] then None
         else
           (case r2 of
              [] \<Rightarrow> Some (nat_of_digits (intpart @ fracpart), - int (length fracpart))
            | c # r3 \<Rightarrow>
                if c = CHR ''e'' then
                  (case parse_exponent r3 of
                     None \<Rightarrow> None
                   | Some x \<Rightarrow>
                       Some (nat_of_digits (intpart @ fracpart), x - int (length fracpart)))
                else None))"

definition Decimal_of_string :: "string \<Rightarrow> decimal option" where
  "Decimal_of_string v =
     (let s = map to_lower (filter (\<lambda>c. c \<noteq> CHR ''_'') (strip v));
          neg = (s \<noteq> [] \<and> hd s = CHR ''-'');
          body = (if s \<noteq> [] \<and> (hd s = CHR ''-'' \<or> hd s = CHR ''+'') then tl s else s)
      in if body = ''inf'' \<or> body = ''infinity'' then Some (Infinity neg)
         else if prefix ''nan'' body \<and> list_all is_digit (drop 3 body) then Some NaN
         else if prefix ''snan'' body \<and> list_all is_digit (drop 4 body) then Some SNaN
         else (case parse_number body of None \<Rightarrow> None | Some (c, e) \<Rightarrow> Some (Finite neg c e)))"

text \<open>
  \<^verbatim>\<open>Decimal._rescale(exp, ROUND_HALF_EVEN)\<close>, which \<^verbatim>\<open>format\<close> applies for a
  presentation type \<^verbatim>\<open>f\<close> with exponent \<open>- places\<close>: zeros are appended or digits are
  rounded away; the context precision does not apply.
\<close>

fun rescale_half_even :: "int \<Rightarrow> decimal \<Rightarrow> decimal" where
  "rescale_half_even ex (Finite s c e) =
     (if c = 0 then Finite s 0 ex
      else if e \<ge> ex then Finite s (c * 10 ^ nat (e - ex)) ex
      else Finite s (round_half_even c (nat (ex - e))) ex)"
| "rescale_half_even ex x = x"

text \<open>
  \<^verbatim>\<open>f'{x:.6f}'\<close> and \<^verbatim>\<open>f'{x:.10f}'\<close>: the Decimal is rescaled to the exponent
  \<open>- places\<close> and printed in positional notation, \<open>places > 0\<close> digits after the point,
  the fraction padded with zeros on the left.
\<close>

definition zero_pad :: "nat \<Rightarrow> string \<Rightarrow> string" where
  "zero_pad n ds = replicate (n - length ds) (CHR ''0'') @ ds"

fun render_f :: "nat \<Rightarrow> decimal \<Rightarrow> string" where
  "render_f places (Finite s q e) =
     (if s then ''-'' else []) @ digits_of (q div 10 ^ places) @ ''.''
     @ zero_pad places (digits_of (q mod 10 ^ places))"
| "render_f places (Infinity s) = (if s then ''-Infinity'' else ''Infinity'')"
| "render_f places NaN = ''NaN''"
| "render_f places SNaN = ''sNaN''"

definition format_f :: "nat \<Rightarrow> decimal \<Rightarrow> string" where
  "format_f places x = render_f places (rescale_half_even (- int places) x)"

section \<open>prepare\_airdrop\_csv.py: prepare\_csv\<close>

text \<open>
  The local accumulators of \<^verbatim>\<open>prepare_csv\<close> and the text written to the output file
  so far. \<open>total_scaled\<close> is the variable \<^verbatim>\<open>total\<close>.
\<close>

record prep_state =
  total_scaled :: decimal
  total_original :: decimal
  count :: nat
  dust_count :: nat
  dust_total :: decimal
  f_out :: string

definition prep_init :: prep_state where
  "prep_init =
     \<lparr>total_scaled = Finite False 0 0, total_original = Finite False 0 0, count = 0,
      dust_count = 0, dust_total = Finite False 0 0, f_out = []\<rparr>"

text \<open>
  Lines 127 and 128:
  \<^verbatim>\<open>int((amount * Decimal(10 ** decimals)).to_integral_value(rounding=ROUND_DOWN))\<close>.
\<close>

definition scale_amount :: "nat \<Rightarrow> decimal \<Rightarrow> py_error + int" where
  "scale_amount decimals amount =
     (case dec_mul amount (Decimal_of_int (10 ^ decimals)) of
        Inl err \<Rightarrow> Inl err
      | Inr scaled \<Rightarrow>
          (case to_integral_value_down scaled of
             Inl err \<Rightarrow> Inl err
           | Inr r \<Rightarrow> int_of_decimal r))"

text \<open>Line 104: \<^verbatim>\<open>min_scaled = int(min_amount * Decimal(10 ** decimals))\<close>.\<close>

definition min_scaled_of :: "nat \<Rightarrow> decimal \<Rightarrow> py_error + int" where
  "min_scaled_of decimals min_amount =
     (case dec_mul min_amount (Decimal_of_int (10 ^ decimals)) of
        Inl err \<Rightarrow> Inl err
      | Inr m \<Rightarrow> int_of_decimal m)"

text \<open>The line written for a kept row: \<^verbatim>\<open>f'{addr},{amount_int}\n'\<close>.\<close>

definition out_line :: "string \<Rightarrow> int \<Rightarrow> string" where
  "out_line addr amount_int = addr @ '','' @ str_of_int amount_int @ [CHR 0x0A]"

text \<open>
  The body of the loop over the rows that \<^verbatim>\<open>csv.reader\<close> yields, a row being the
  list of its fields. A row of fewer than two fields and a row whose amount does not
  parse are skipped by \<^verbatim>\<open>continue\<close>. An exception raised by the arithmetic is not
  caught: the result is then \<open>Inl\<close> of the exception and of the text the output file holds
  at that moment.
\<close>

definition process_row ::
  "nat \<Rightarrow> int \<Rightarrow> prep_state \<Rightarrow> string list \<Rightarrow> (py_error \<times> string) + prep_state" where
  "process_row decimals min_scaled st row =
     (if length row < 2 then Inr st
      else
        let addr = strip (row ! 0) in
        case Decimal_of_string (strip (row ! 1)) of
          None \<Rightarrow> Inr st
        | Some amount \<Rightarrow>
           (case dec_add (total_original st) amount of
              Inl err \<Rightarrow> Inl (err, f_out st)
            | Inr t_orig \<Rightarrow>
           (case scale_amount decimals amount of
              Inl err \<Rightarrow> Inl (err, f_out st)
            | Inr amount_int \<Rightarrow>
                if amount_int \<ge> min_scaled then
                  (let written = f_out st @ out_line addr amount_int in
                   case dec_add (total_scaled st) (Decimal_of_int amount_int) of
                     Inl err \<Rightarrow> Inl (err, written)
                   | Inr t \<Rightarrow>
                       Inr (st\<lparr>total_original := t_orig, f_out := written,
                                total_scaled := t, count := count st + 1\<rparr>))
                else
                  (case dec_add (dust_total st) amount of
                     Inl err \<Rightarrow> Inl (err, f_out st)
                   | Inr dt \<Rightarrow>
                       Inr (st\<lparr>total_original := t_orig, dust_count := dust_count st + 1,
                                dust_total := dt\<rparr>)))))"

fun process_rows ::
  "nat \<Rightarrow> int \<Rightarrow> prep_state \<Rightarrow> string list list \<Rightarrow> (py_error \<times> string) + prep_state" where
  "process_rows decimals min_scaled st [] = Inr st"
| "process_rows decimals min_scaled st (row # rows) =
     (case process_row decimals min_scaled st row of
        Inl err \<Rightarrow> Inl err
      | Inr st' \<Rightarrow> process_rows decimals min_scaled st' rows)"

text \<open>
  A run of \<^verbatim>\<open>prepare_csv\<close> ends with an uncaught exception, the output file being
  untouched (\<open>None\<close>) or left with some text, or it completes with the final
  accumulators, which the summary prints.
\<close>

datatype csv_run =
    Failed py_error "string option"
  | Completed prep_state

text \<open>
  \<^verbatim>\<open>prepare_csv(input_path, decimals, output_path, min_amount)\<close>. The input file is
  given by the rows read from it, \<open>None\<close> when it cannot be opened; opening the output
  file is taken to succeed. \<^verbatim>\<open>min_amount\<close> defaults to \<^verbatim>\<open>Decimal('0.00001')\<close>.
\<close>

definition min_amount_of :: "decimal option \<Rightarrow> decimal" where
  "min_amount_of min_amount_arg =
     (case min_amount_arg of None \<Rightarrow> Finite False 1 (- 5) | Some m \<Rightarrow> m)"

definition prepare_csv :: "string list list option \<Rightarrow> nat \<Rightarrow> decimal option \<Rightarrow> csv_run" where
  "prepare_csv input decimals min_amount_arg =
     (case min_scaled_of decimals (min_amount_of min_amount_arg) of
        Inl err \<Rightarrow> Failed err None
      | Inr min_scaled \<Rightarrow>
          (case input of
             None \<Rightarrow> Failed OSError None
           | Some rows \<Rightarrow>
               (case process_rows decimals min_scaled prep_init rows of
                  Inl (err, written) \<Rightarrow> Failed err (Some written)
                | Inr st \<Rightarrow> Completed st)))"

text \<open>The numbers of the summary that the properties below speak of.\<close>

definition printed_recipients :: "prep_state \<Rightarrow> string" where
  "printed_recipients st = str_of_int (int (count st))"

definition printed_dust_count :: "prep_state \<Rightarrow> string" where
  "printed_dust_count st = str_of_int (int (dust_count st))"

definition printed_dust_total :: "prep_state \<Rightarrow> string" where
  "printed_dust_total st = format_f 10 (dust_total st)"

definition printed_original_total :: "prep_state \<Rightarrow> string" where
  "printed_original_total st = format_f 6 (total_original st)"

subsection \<open>The rows of the input, classified\<close>

text \<open>
  A row is syntactically valid when it has at least two fields and its second field,
  stripped, parses as a Decimal; \<open>parse_row\<close> gives the stripped address and the amount
  of such a row.
\<close>

definition valid_row :: "string list \<Rightarrow> bool" where
  "valid_row row = (2 \<le> length row \<and> Decimal_of_string (strip (row ! 1)) \<noteq> None)"

definition parse_row :: "string list \<Rightarrow> (string \<times> decimal) option" where
  "parse_row row =
     (if length row < 2 then None
      else (case Decimal_of_string (strip (row ! 1)) of
              None \<Rightarrow> None
            | Some amount \<Rightarrow> Some (strip (row ! 0), amount)))"

text \<open>The original amounts of the syntactically valid rows, in the order of the input.\<close>

definition valid_amounts :: "string list list \<Rightarrow> decimal list" where
  "valid_amounts rows = map snd (List.map_filter parse_row rows)"

text \<open>
  The valid rows whose amount can be scaled, each with its address, original amount and
  scaled amount, in the order of the input; among them the kept rows, whose scaled amount
  reaches \<open>min_scaled\<close>, and the dust rows, whose scaled amount is below it.
\<close>

definition scaled_row :: "nat \<Rightarrow> string list \<Rightarrow> (string \<times> decimal \<times> int) option" where
  "scaled_row decimals row =
     (case parse_row row of
        None \<Rightarrow> None
      | Some (addr, amount) \<Rightarrow>
          (case scale_amount decimals amount of
             Inl err \<Rightarrow> None
           | Inr amount_int \<Rightarrow> Some (addr, amount, amount_int)))"

definition scaled_rows :: "nat \<Rightarrow> string list list \<Rightarrow> (string \<times> decimal \<times> int) list" where
  "scaled_rows decimals rows = List.map_filter (scaled_row decimals) rows"

definition kept_rows ::
  "nat \<Rightarrow> int \<Rightarrow> string list list \<Rightarrow> (string \<times> decimal \<times> int) list" where
  "kept_rows decimals min_scaled rows =
     filter (\<lambda>(addr, amount, amount_int). min_scaled \<le> amount_int) (scaled_rows decimals rows)"

definition dust_rows ::
  "nat \<Rightarrow> int \<Rightarrow> string list list \<Rightarrow> (string \<times> decimal \<times> int) list" where
  "dust_rows decimals min_scaled rows =
     filter (\<lambda>(addr, amount, amount_int). amount_int < min_scaled) (scaled_rows decimals rows)"

definition row_addr :: "string \<times> decimal \<times> int \<Rightarrow> string" where
  "row_addr r = fst r"

definition row_amount :: "string \<times> decimal \<times> int \<Rightarrow> decimal" where
  "row_amount r = fst (snd r)"

definition row_scaled :: "string \<times> decimal \<times> int \<Rightarrow> int" where
  "row_scaled r = snd (snd r)"

text \<open>The line written for a kept row.\<close>

definition written_line :: "string \<times> decimal \<times> int \<Rightarrow> string" where
  "written_line r = out_line (row_addr r) (row_scaled r)"

text \<open>
  The sum of a list of Decimals as the script accumulates it: \<^verbatim>\<open>acc += x\<close> from left
  to right in the arithmetic of the context, starting from \<^verbatim>\<open>Decimal('0')\<close>.
\<close>

fun dec_sum_from :: "decimal \<Rightarrow> decimal list \<Rightarrow> py_error + decimal" where
  "dec_sum_from acc [] = Inr acc"
| "dec_sum_from acc (x # xs) =
     (case dec_add acc x of Inl err \<Rightarrow> Inl err | Inr acc' \<Rightarrow> dec_sum_from acc' xs)"

definition dec_sum :: "decimal list \<Rightarrow> py_error + decimal" where
  "dec_sum xs = dec_sum_from (Finite False 0 0) xs"

text \<open>A finite Decimal with at most \<open>k\<close> digits after the decimal point.\<close>

fun places_le :: "nat \<Rightarrow> decimal \<Rightarrow> bool" where
  "places_le k (Finite s c e) = (- int k \<le> e)"
| "places_le k x = False"

text \<open>
  An accumulator of the loop that holds a finite Decimal with at most \<open>k\<close> digits after
  the decimal point and an exponent that is not positive.
\<close>

fun acc_ok :: "nat \<Rightarrow> decimal \<Rightarrow> bool" where
  "acc_ok k (Finite s c e) = (- int k \<le> e \<and> e \<le> 0)"
| "acc_ok k x = False"

text \<open>The record of a kept row without its line feed.\<close>

definition record_of :: "string \<times> decimal \<times> int \<Rightarrow> string" where
  "record_of r = row_addr r @ '','' @ str_of_int (row_scaled r)"

text \<open>
  The text that a run leaves in the output file; nothing when the run raises before the
  file is opened.
\<close>

fun written_text :: "csv_run \<Rightarrow> string" where
  "written_text (Completed st) = f_out st"
| "written_text (Failed err (Some written)) = written"
| "written_text (Failed err None) = []"

section \<open>prepare\_airdrop\_csv.py: the token queries and the main program\<close>

subsection \<open>JSON values, hexadecimal numbers and bytes\<close>

text \<open>
  The value that \<^verbatim>\<open>json.loads\<close> returns. An object is the list of its items, the first
  item of a key being the one found. A JSON number is modelled as an integer: a
  floating-point number takes the same paths in both queries (it is rejected where a
  string is needed, and it is false exactly when it is zero).
\<close>

datatype json =
    JNull
  | JBool bool
  | JNum int
  | JStr string
  | JArr "json list"
  | JObj "(string \<times> json) list"

text \<open>
  What a query gets back: nothing, when the HTTP exchange raises (a network error, a
  timeout, an HTTP error status) or the body is not JSON; or the decoded body.
\<close>

datatype rpc_reply = NoReply | Reply json

text \<open>\<^verbatim>\<open>'error' in result\<close>: a key of an object, an element of an array, a substring of
  a string; any other value raises \<^verbatim>\<open>TypeError\<close>.\<close>

fun has_error :: "json \<Rightarrow> py_error + bool" where
  "has_error (JObj kvs) = Inr (map_of kvs ''error'' \<noteq> None)"
| "has_error (JArr xs) = Inr (List.member xs (JStr ''error''))"
| "has_error (JStr s) = Inr (contains ''error'' s)"
| "has_error v = Inl TypeError"

text \<open>\<^verbatim>\<open>result['result']\<close>\<close>

fun subscript_result :: "json \<Rightarrow> py_error + json" where
  "subscript_result (JObj kvs) =
     (case map_of kvs ''result'' of None \<Rightarrow> Inl KeyError | Some v \<Rightarrow> Inr v)"
| "subscript_result v = Inl TypeError"

text \<open>\<^verbatim>\<open>result.get('result')\<close>, Python's \<^verbatim>\<open>None\<close> being \<open>JNull\<close>.\<close>

fun get_result :: "json \<Rightarrow> py_error + json" where
  "get_result (JObj kvs) = (case map_of kvs ''result'' of None \<Rightarrow> Inr JNull | Some v \<Rightarrow> Inr v)"
| "get_result v = Inl AttributeError"

text \<open>The truth value of a JSON value in a condition.\<close>

fun truthy :: "json \<Rightarrow> bool" where
  "truthy JNull = False"
| "truthy (JBool b) = b"
| "truthy (JNum n) = (n \<noteq> 0)"
| "truthy (JStr s) = (s \<noteq> [])"
| "truthy (JArr xs) = (xs \<noteq> [])"
| "truthy (JObj kvs) = (kvs \<noteq> [])"

text \<open>The value of a hexadecimal digit.\<close>

definition hex_val :: "char \<Rightarrow> nat option" where
  "hex_val c =
     (let n = (of_char c :: nat) in
      if 48 \<le> n \<and> n \<le> 57 then Some (n - 48)
      else if 97 \<le> n \<and> n \<le> 102 then Some (n - 87)
      else if 65 \<le> n \<and> n \<le> 70 then Some (n - 55)
      else None)"

text \<open>
  The digits of \<^verbatim>\<open>int(s, 16)\<close>: one or more hexadecimal digits, with single
  underscores allowed between digits. \<open>prev\<close> tells whether the previous character was a
  digit.
\<close>

fun hex_groups :: "string \<Rightarrow> bool \<Rightarrow> nat \<Rightarrow> nat option" where
  "hex_groups [] prev acc = (if prev then Some acc else None)"
| "hex_groups (c # cs) prev acc =
     (if c = CHR ''_'' then (if prev \<and> cs \<noteq> [] then hex_groups cs False acc else None)
      else (case hex_val c of
              None \<Rightarrow> None
            | Some v \<Rightarrow> hex_groups cs True (16 * acc + v)))"

text \<open>
  \<^verbatim>\<open>int(s, 16)\<close> for a string: white space at both ends is dropped; an optional sign;
  an optional prefix \<^verbatim>\<open>0x\<close> or \<^verbatim>\<open>0X\<close>, after which one underscore may stand; then the
  digits. \<open>None\<close> stands for \<^verbatim>\<open>ValueError\<close>.
\<close>

definition int_base16 :: "string \<Rightarrow> int option" where
  "int_base16 v =
     (let s = strip v;
          neg = (s \<noteq> [] \<and> hd s = CHR ''-'');
          body = (if s \<noteq> [] \<and> (hd s = CHR ''-'' \<or> hd s = CHR ''+'') then tl s else s);
          prefixed = (prefix ''0x'' body \<or> prefix ''0X'' body);
          digits = (if prefixed
                    then (if prefix ''_'' (drop 2 body) then drop 3 body else drop 2 body)
                    else body)
      in case hex_groups digits False 0 of
           None \<Rightarrow> None
         | Some n \<Rightarrow> Some (if neg then - int n else int n))"

text \<open>\<^verbatim>\<open>s[start:stop]\<close> for a start that is not negative: a negative stop counts from
  the end, and both ends are clipped to the string.\<close>

definition py_slice :: "string \<Rightarrow> nat \<Rightarrow> int \<Rightarrow> string" where
  "py_slice s start stop =
     (let n = int (length s);
          stop' = (if stop < 0 then max 0 (stop + n) else min stop n)
      in if stop' \<le> int start then [] else take (nat stop' - start) (drop start s))"

text \<open>
  \<^verbatim>\<open>bytes.fromhex(s)\<close>: pairs of hexadecimal digits, ASCII white space being skipped
  before a pair. \<open>None\<close> stands for \<^verbatim>\<open>ValueError\<close>.
\<close>

definition is_c_space :: "char \<Rightarrow> bool" where
  "is_c_space c = (let n = (of_char c :: nat) in (9 \<le> n \<and> n \<le> 13) \<or> n = 32)"

fun fromhex :: "string \<Rightarrow> nat list option" where
  "fromhex [] = Some []"
| "fromhex [c] = (if is_c_space c then Some [] else None)"
| "fromhex (c # d # ds) =
     (if is_c_space c then fromhex (d # ds)
      else (case (hex_val c, hex_val d) of
              (Some hi, Some lo) \<Rightarrow>
                (case fromhex ds of None \<Rightarrow> None | Some bs \<Rightarrow> Some ((16 * hi + lo) # bs))
            | _ \<Rightarrow> None))"

text \<open>
  \<^verbatim>\<open>b.decode('utf-8')\<close> succeeds exactly on the well-formed byte sequences of UTF-8; the
  decoded string is then represented by those same bytes.
\<close>

definition cont_byte :: "nat \<Rightarrow> bool" where
  "cont_byte b = (128 \<le> b \<and> b \<le> 191)"

fun utf8_valid :: "nat list \<Rightarrow> bool" where
  "utf8_valid [] = True"
| "utf8_valid (b # bs) =
     (if b < 128 then utf8_valid bs
      else if 194 \<le> b \<and> b \<le> 223 then
        (case bs of c1 # r \<Rightarrow> cont_byte c1 \<and> utf8_valid r | _ \<Rightarrow> False)
      else if 224 \<le> b \<and> b \<le> 239 then
        (case bs of
           c1 # c2 # r \<Rightarrow>
             (if b = 224 then 160 \<le> c1 \<and> c1 \<le> 191
              else if b = 237 then 128 \<le> c1 \<and> c1 \<le> 159
              else cont_byte c1)
             \<and> cont_byte c2 \<and> utf8_valid r
         | _ \<Rightarrow> False)
      else if 240 \<le> b \<and> b \<le> 244 then
        (case bs of
           c1 # c2 # c3 # r \<Rightarrow>
             (if b = 240 then 144 \<le> c1 \<and> c1 \<le> 191
              else if b = 244 then 128 \<le> c1 \<and> c1 \<le> 143
              else cont_byte c1)
             \<and> cont_byte c2 \<and> cont_byte c3 \<and> utf8_valid r
         | _ \<Rightarrow> False)
      else False)"

text \<open>The character of a byte.\<close>

definition byte_char :: "nat \<Rightarrow> char" where
  "byte_char n =
     Char (odd n) (odd (n div 2)) (odd (n div 4)) (odd (n div 8))
          (odd (n div 16)) (odd (n div 32)) (odd (n div 64)) (odd (n div 128))"

text \<open>\<^verbatim>\<open>s.strip('\x00')\<close>\<close>

definition strip_nul :: "string \<Rightarrow> string" where
  "strip_nul s = rev (dropWhile (\<lambda>c. c = CHR 0x00) (rev (dropWhile (\<lambda>c. c = CHR 0x00) s)))"

subsection \<open>The two queries\<close>

text \<open>
  \<^verbatim>\<open>get_token_decimals\<close>, from the reply to the \<^verbatim>\<open>eth_call\<close> of \<^verbatim>\<open>decimals()\<close>: every
  failure is an exception of the function.
\<close>

definition get_token_decimals :: "rpc_reply \<Rightarrow> py_error + int" where
  "get_token_decimals reply =
     (case reply of
        NoReply \<Rightarrow> Inl URLError
      | Reply result \<Rightarrow>
          (case has_error result of
             Inl err \<Rightarrow> Inl err
           | Inr True \<Rightarrow> Inl RpcError
           | Inr False \<Rightarrow>
               (case subscript_result result of
                  Inl err \<Rightarrow> Inl err
                | Inr (JStr s) \<Rightarrow>
                    (case int_base16 s of None \<Rightarrow> Inl ValueError | Some n \<Rightarrow> Inr n)
                | Inr v \<Rightarrow> Inl TypeError)))"

text \<open>
  The body of the \<^verbatim>\<open>try\<close> block of \<^verbatim>\<open>get_token_symbol\<close>: \<open>Inl\<close> is an exception
  raised inside the block, \<open>Inr\<close> the value of a \<^verbatim>\<open>return\<close>. A result that is true but
  is not a string ends in \<^verbatim>\<open>"UNKNOWN"\<close> on each of its paths: slicing it raises, or
  the slice is short, or the length word taken from it is not a string.
\<close>

definition symbol_try :: "rpc_reply \<Rightarrow> py_error + string" where
  "symbol_try reply =
     (case reply of
        NoReply \<Rightarrow> Inl URLError
      | Reply result \<Rightarrow>
          (case has_error result of
             Inl err \<Rightarrow> Inl err
           | Inr True \<Rightarrow> Inr ''UNKNOWN''
           | Inr False \<Rightarrow>
               (case get_result result of
                  Inl err \<Rightarrow> Inl err
                | Inr v \<Rightarrow>
                    if \<not> truthy v then Inr ''UNKNOWN''
                    else
                      (case v of
                         JStr s \<Rightarrow>
                           (let hex_data = drop 2 s in
                            if length hex_data < 128 then Inr ''UNKNOWN''
                            else
                              (case int_base16 (py_slice hex_data 64 128) of
                                 None \<Rightarrow> Inl ValueError
                               | Some len \<Rightarrow>
                                   (case fromhex (py_slice hex_data 128 (128 + len * 2)) of
                                      None \<Rightarrow> Inl ValueError
                                    | Some bs \<Rightarrow>
                                        if utf8_valid bs
                                        then Inr (strip_nul (map byte_char bs))
                                        else Inl UnicodeDecodeError)))
                       | JArr xs \<Rightarrow> (if length (drop 2 xs) < 128 then Inr ''UNKNOWN'' else Inl TypeError)
                       | _ \<Rightarrow> Inl TypeError))))"

text \<open>\<^verbatim>\<open>get_token_symbol\<close>: the bare \<^verbatim>\<open>except\<close> turns every exception of the block
  into \<^verbatim>\<open>"UNKNOWN"\<close>.\<close>

definition get_token_symbol :: "rpc_reply \<Rightarrow> string" where
  "get_token_symbol reply = (case symbol_try reply of Inl err \<Rightarrow> ''UNKNOWN'' | Inr s \<Rightarrow> s)"

subsection \<open>The main program\<close>

text \<open>
  What a run of the script depends on: the command line (the script's name first), the
  value of \<^verbatim>\<open>RPC_URL\<close> in the environment, whether \<^verbatim>\<open>urllib.request.Request\<close>
  accepts that URL (it raises \<^verbatim>\<open>ValueError\<close> before anything is sent otherwise), the
  replies to the two queries, and for each path the rows that \<^verbatim>\<open>csv.reader\<close> yields
  from the file there, \<open>None\<close> when the file cannot be opened.
\<close>

record world =
  argv :: "string list"
  rpc_url :: "string option"
  request_ok :: bool
  decimals_reply :: rpc_reply
  symbol_reply :: rpc_reply
  input_rows :: "string \<Rightarrow> string list list option"

text \<open>
  What a run does, in order: the lines it prints (by what they say, the usage text and
  the summary each being one message), the queries it sends (by their selector), and the
  files it opens, the output file with the text it holds at the end.
\<close>

datatype message =
    Usage
  | RpcUrlRequired
  | FetchingTokenInfo string
  | TokenSymbol string
  | TokenDecimals int
  | BlankLine
  | ErrorFetchingTokenInfo py_error
  | Summary prep_state

datatype event =
    Print message
  | EthCall string
  | OpenInput string
  | OpenOutput string string


text \<open>
  How a run ends: \<^verbatim>\<open>sys.exit(n)\<close>; an uncaught exception, which prints a traceback and
  gives status 1; the end of the script, status 0. A negative number of decimals makes
  \<^verbatim>\<open>10 ** decimals\<close> a floating-point number; that path is not modelled.
\<close>

datatype ending =
    Exit nat
  | Traceback py_error
  | End
  | FloatScale


text \<open>
  The loop over \<^verbatim>\<open>sys.argv[3:]\<close>: \<^verbatim>\<open>--min-amount\<close> followed by another argument
  sets the minimum amount, which raises when that argument is not a Decimal; any other
  argument is the output path.
\<close>

fun parse_optional ::
  "string list \<Rightarrow> string option \<times> decimal option \<Rightarrow> py_error + string option \<times> decimal option" where
  "parse_optional [] acc = Inr acc"
| "parse_optional [a] (output_csv, min_amount) = Inr (Some a, min_amount)"
| "parse_optional (a # b # rest) (output_csv, min_amount) =
     (if a = ''--min-amount'' then
        (case Decimal_of_string b of
           None \<Rightarrow> Inl InvalidOperation
         | Some m \<Rightarrow> parse_optional rest (output_csv, Some m))
      else parse_optional (b # rest) (Some a, min_amount))"

text \<open>
  The \<^verbatim>\<open>try\<close> block of the main program up to the two calls: the queries sent, and
  the exception that the \<^verbatim>\<open>except Exception\<close> clause catches or the decimals and the
  symbol.
\<close>

definition fetch_token_info :: "world \<Rightarrow> event list \<times> (py_error + int \<times> string)" where
  "fetch_token_info w =
     (if \<not> request_ok w then ([], Inl ValueError)
      else
        (case get_token_decimals (decimals_reply w) of
           Inl err \<Rightarrow> ([EthCall ''0x313ce567''], Inl err)
         | Inr decimals \<Rightarrow>
             ([EthCall ''0x313ce567'', EthCall ''0x95d89b41''],
              Inr (decimals, get_token_symbol (symbol_reply w)))))"

text \<open>The call of \<^verbatim>\<open>prepare_csv\<close> at the end of the main program, with what it opens.\<close>

definition run_prepare ::
  "world \<Rightarrow> string \<Rightarrow> int \<Rightarrow> string option \<Rightarrow> decimal option \<Rightarrow> event list \<times> ending" where
  "run_prepare w input_csv decimals output_csv min_amount =
     (if decimals < 0 then ([], FloatScale)
      else
        let output_path = (case output_csv of None \<Rightarrow> ''airdrop_prepared.csv'' | Some p \<Rightarrow> p) in
        case prepare_csv (input_rows w input_csv) (nat decimals) min_amount of
          Completed st \<Rightarrow>
            ([OpenInput input_csv, OpenOutput output_path (f_out st), Print (Summary st)], End)
        | Failed err (Some written) \<Rightarrow>
            ([OpenInput input_csv, OpenOutput output_path written], Traceback err)
        | Failed err None \<Rightarrow>
            (case min_scaled_of (nat decimals) (min_amount_of min_amount) of
               Inl err' \<Rightarrow> ([], Traceback err)
             | Inr m \<Rightarrow> ([OpenInput input_csv], Traceback err)))"

definition main :: "world \<Rightarrow> event list \<times> ending" where
  "main w =
     (if length (argv w) < 3 then ([Print Usage], Exit 1)
      else
        let input_csv = argv w ! 1; token_address = argv w ! 2 in
        case parse_optional (drop 3 (argv w)) (None, None) of
          Inl err \<Rightarrow> ([], Traceback err)
        | Inr (output_csv, min_amount) \<Rightarrow>
            if rpc_url w = None \<or> rpc_url w = Some [] then ([Print RpcUrlRequired], Exit 1)
            else
              (case fetch_token_info w of
                 (calls, Inl err) \<Rightarrow>
                   (Print (FetchingTokenInfo token_address) # calls
                      @ [Print (ErrorFetchingTokenInfo err)], Exit 1)
               | (calls, Inr (decimals, symbol)) \<Rightarrow>
                   (case run_prepare w input_csv decimals output_csv min_amount of
                      (evs, fin) \<Rightarrow>
                        (Print (FetchingTokenInfo token_address) # calls
                           @ [Print (TokenSymbol symbol), Print (TokenDecimals decimals),
                              Print BlankLine]
                           @ evs, fin))))"

section \<open>Properties of calculate\_src\_coverage.py\<close>

lemma scan_line_covered:
  "covered (scan_line st l) = covered st + (case parse_line l of None \<Rightarrow> 0 | Some (c, t) \<Rightarrow> c)"
  by (simp add: scan_line_def Let_def split: option.split prod.split)

lemma scan_line_total:
  "total (scan_line st l) = total st + (case parse_line l of None \<Rightarrow> 0 | Some (c, t) \<Rightarrow> t)"
  by (simp add: scan_line_def Let_def split: option.split prod.split)

lemma scan_line_files:
  "files (scan_line st l) = files st @ (case missing_entry l of None \<Rightarrow> [] | Some e \<Rightarrow> [e])"
  by (simp add: scan_line_def missing_entry_def Let_def split: option.split prod.split)

lemma foldl_scan_covered:
  "covered (foldl scan_line st ls) = covered st + sum_list (map fst (List.map_filter parse_line ls))"
  by (induction ls arbitrary: st)
     (simp_all add: scan_line_covered split: option.split prod.split)

lemma foldl_scan_total:
  "total (foldl scan_line st ls) = total st + sum_list (map snd (List.map_filter parse_line ls))"
  by (induction ls arbitrary: st)
     (simp_all add: scan_line_total split: option.split prod.split)

lemma foldl_scan_files:
  "files (foldl scan_line st ls) = files st @ List.map_filter missing_entry ls"
  by (induction ls arbitrary: st)
     (simp_all add: scan_line_files split: option.split)

lemma parse_line_nonneg: "parse_line l = Some (c, t) \<Longrightarrow> 0 \<le> c \<and> 0 \<le> t"
  by (auto simp: parse_line_def split: if_splits option.splits)

lemma scan_line_total_nonneg: "0 \<le> total st \<Longrightarrow> 0 \<le> total (scan_line st l)"
  using parse_line_nonneg [of l]
  by (cases "parse_line l") (auto simp: scan_line_total)

lemma foldl_scan_total_nonneg: "0 \<le> total st \<Longrightarrow> 0 \<le> total (foldl scan_line st ls)"
  by (induction ls arbitrary: st) (simp_all add: scan_line_total_nonneg)

lemma scan_lines_total_nonneg: "0 \<le> total (scan_lines ls)"
  by (simp add: scan_lines_def cov_init_def foldl_scan_total_nonneg)

text \<open>
  C5. The loop adds to \<open>covered\<close> and \<open>total\<close> the pair \<open>(c, t)\<close> of exactly the lines
  that contain \<^verbatim>\<open>'| src/'\<close> and match the pattern, in any state leaves the accumulators
  as they are on every other line, and appends to \<open>files\<close> the entry
  \<open>(line.strip(), c, t, t - c)\<close> of exactly the matched lines with \<open>t > c\<close>, in order.
  On the two lines of the example the sums are 13 and 15, the deficit is 2 and the
  exit status is 1.
\<close>

theorem coverage_accumulates:
  "covered (scan_lines ls) = sum_list (map fst (List.map_filter parse_line ls))
   \<and> total (scan_lines ls) = sum_list (map snd (List.map_filter parse_line ls))
   \<and> files (scan_lines ls) = List.map_filter missing_entry ls
   \<and> ((\<not> contains ''| src/'' l \<or> re_search l = None) \<longrightarrow>
        parse_line l = None \<and> missing_entry l = None \<and> scan_line st l = st)
   \<and> (parse_line l = Some (c, t) \<longrightarrow>
        contains ''| src/'' l \<and> re_search l \<noteq> None
        \<and> missing_entry l = (if t > c then Some (strip l, c, t, t - c) else None))
   \<and> (let out = ''| src/A.sol | 80.00% (8/10) |'' @ [CHR 0x0A] @ ''| src/B.sol | 100.00% (5/5) |'';
           r = scan_lines (split_nl out)
       in covered r = 13 \<and> total r = 15 \<and> total r - covered r = 2
          \<and> files r = [(''| src/A.sol | 80.00% (8/10) |'', 8, 10, 2)]
          \<and> coverage_main (Captured out) = 1)"
proof -
  have sums: "covered (scan_lines ls) = sum_list (map fst (List.map_filter parse_line ls))"
    "total (scan_lines ls) = sum_list (map snd (List.map_filter parse_line ls))"
    "files (scan_lines ls) = List.map_filter missing_entry ls"
    by (simp_all add: scan_lines_def cov_init_def foldl_scan_covered foldl_scan_total
        foldl_scan_files)
  have ignored: "(\<not> contains ''| src/'' l \<or> re_search l = None) \<longrightarrow>
        parse_line l = None \<and> missing_entry l = None \<and> scan_line st l = st"
    by (auto simp: parse_line_def missing_entry_def scan_line_def)
  have matched: "parse_line l = Some (c, t) \<longrightarrow>
        contains ''| src/'' l \<and> re_search l \<noteq> None
        \<and> missing_entry l = (if t > c then Some (strip l, c, t, t - c) else None)"
    by (auto simp: parse_line_def missing_entry_def split: if_splits option.splits)
  have example: "(let out = ''| src/A.sol | 80.00% (8/10) |'' @ [CHR 0x0A] @ ''| src/B.sol | 100.00% (5/5) |'';
           r = scan_lines (split_nl out)
       in covered r = 13 \<and> total r = 15 \<and> total r - covered r = 2
          \<and> files r = [(''| src/A.sol | 80.00% (8/10) |'', 8, 10, 2)]
          \<and> coverage_main (Captured out) = 1)"
    by code_simp
  from sums ignored matched example show ?thesis by blast
qed

theorem coverage_accumulates_witness:
  "scan_line cov_init ''| test/T.sol | 50.00% (1/2) |'' = cov_init
   \<and> scan_line cov_init ''| src/A.sol | n/a |'' = cov_init
   \<and> parse_line ''| src/A.sol | 80.00% (8/10) |'' = Some (8, 10)
   \<and> missing_entry ''| src/A.sol | 80.00% (8/10) |''
       = Some (''| src/A.sol | 80.00% (8/10) |'', 8, 10, 2)
   \<and> covered (scan_lines [''| src/A.sol | 80.00% (8/10) |'', ''Compiling...'',
        ''| src/B.sol | 100.00% (5/5) |'']) = 13"
proof -
  have a: "\<not> contains ''| src/'' ''| test/T.sol | 50.00% (1/2) |''" by code_simp
  have b: "re_search ''| src/A.sol | n/a |'' = None" by code_simp
  have c: "parse_line ''| src/A.sol | 80.00% (8/10) |'' = Some (8, 10)" by code_simp
  have d: "List.map_filter parse_line [''| src/A.sol | 80.00% (8/10) |'', ''Compiling...'',
        ''| src/B.sol | 100.00% (5/5) |''] = [(8, 10), (5, 5)]" by code_simp
  have e: "strip ''| src/A.sol | 80.00% (8/10) |'' = ''| src/A.sol | 80.00% (8/10) |''"
    by code_simp
  show ?thesis
    using a b c d e
      coverage_accumulates [of "[''| src/A.sol | 80.00% (8/10) |'', ''Compiling...'',
        ''| src/B.sol | 100.00% (5/5) |'']" "''| test/T.sol | 50.00% (1/2) |''" cov_init 8 10]
      coverage_accumulates [of "[]" "''| src/A.sol | n/a |''" cov_init 8 10]
      coverage_accumulates [of "[]" "''| src/A.sol | 80.00% (8/10) |''" cov_init 8 10]
    by simp
qed

text \<open>
  C2 as stated fails: when no line is counted (\<open>total = 0\<close>) the script makes no
  determination and ends with status 0, and it does so even when the lines it did match
  give a non-zero missing count.
\<close>

theorem exit_status_unparseable_counterexample:
  "total (scan_lines (split_nl ''Error: compilation failed'')) = 0
   \<and> coverage_main (Captured ''Error: compilation failed'') = 0
   \<and> coverage_main (Captured []) = 0
   \<and> total (scan_lines (split_nl ''| src/A.sol | 0.00% (5/0) |''))
       - covered (scan_lines (split_nl ''| src/A.sol | 0.00% (5/0) |'')) = - 5
   \<and> coverage_main (Captured ''| src/A.sol | 0.00% (5/0) |'') = 0"
  by code_simp

text \<open>
  C2, amended. The status is 1 when the tool cannot be run. Otherwise it is 0 exactly
  when the parsed total is 0 (no determination is made) or the missing count
  \<open>total - covered\<close> is 0, and 1 exactly when \<open>total > 0\<close> and the missing count is not 0.
\<close>

theorem exit_status_cases:
  "coverage_main Raised = 1
   \<and> coverage_main (Captured out) =
       (if total (scan_lines (split_nl out)) = 0 then 0
        else if total (scan_lines (split_nl out)) - covered (scan_lines (split_nl out)) = 0
        then 0 else 1)"
  using scan_lines_total_nonneg [of "split_nl out"]
  by (auto simp: coverage_main_def exit_status_def Let_def)

theorem exit_status_cases_witness:
  "coverage_main (Captured ''| src/B.sol | 100.00% (5/5) |'') = 0
   \<and> coverage_main (Captured ''| src/A.sol | 80.00% (8/10) |'') = 1
   \<and> coverage_main (Captured ''nothing to parse'') = 0"
proof -
  have a: "scan_lines (split_nl ''| src/B.sol | 100.00% (5/5) |'')
      = \<lparr>covered = 5, total = 5, files = []\<rparr>" by code_simp
  have b: "scan_lines (split_nl ''| src/A.sol | 80.00% (8/10) |'')
      = \<lparr>covered = 8, total = 10, files = [(''| src/A.sol | 80.00% (8/10) |'', 8, 10, 2)]\<rparr>"
    by code_simp
  have c: "scan_lines (split_nl ''nothing to parse'') = \<lparr>covered = 0, total = 0, files = []\<rparr>"
    by code_simp
  have "coverage_main (Captured ''| src/B.sol | 100.00% (5/5) |'') = 0"
    using exit_status_cases [of "''| src/B.sol | 100.00% (5/5) |''"] unfolding a by simp
  moreover have "coverage_main (Captured ''| src/A.sol | 80.00% (8/10) |'') = 1"
    using exit_status_cases [of "''| src/A.sol | 80.00% (8/10) |''"] unfolding b by simp
  moreover have "coverage_main (Captured ''nothing to parse'') = 0"
    using exit_status_cases [of "''nothing to parse''"] unfolding c by simp
  ultimately show ?thesis by simp
qed

section \<open>Properties of the decimal arithmetic\<close>

subsection \<open>The number of digits\<close>

lemma ndigits_pos: "0 < ndigits n"
  by (subst ndigits.simps) simp

lemma ndigits_lt_pow: "n < 10 ^ ndigits n"
proof (induction n rule: ndigits.induct)
  case (1 n)
  show ?case
  proof (cases "n < 10")
    case True
    then show ?thesis by (subst ndigits.simps) simp
  next
    case False
    with 1 have "n div 10 < 10 ^ ndigits (n div 10)" by simp
    then have "n < 10 * 10 ^ ndigits (n div 10)" by simp
    with False show ?thesis by (subst ndigits.simps) simp
  qed
qed

lemma ndigits_ge_pow: "0 < n \<Longrightarrow> 10 ^ (ndigits n - 1) \<le> n"
proof (induction n rule: ndigits.induct)
  case (1 n)
  show ?case
  proof (cases "n < 10")
    case True
    with 1(2) show ?thesis by (subst ndigits.simps) simp
  next
    case False
    then have pos: "0 < n div 10" by simp
    with 1(1) False have "10 ^ (ndigits (n div 10) - 1) \<le> n div 10" by simp
    then have "10 * 10 ^ (ndigits (n div 10) - 1) \<le> n" by simp
    moreover have "ndigits n - 1 = Suc (ndigits (n div 10) - 1)"
      using False ndigits_pos [of "n div 10"] by (subst ndigits.simps) simp
    ultimately show ?thesis by simp
  qed
qed

lemma ndigits_le: "n < 10 ^ k \<Longrightarrow> 0 < k \<Longrightarrow> ndigits n \<le> k"
proof (rule ccontr)
  assume lt: "n < 10 ^ k" and k: "0 < k" and "\<not> ndigits n \<le> k"
  then have "k \<le> ndigits n - 1" by simp
  then have pw: "(10::nat) ^ k \<le> 10 ^ (ndigits n - 1)" by (simp add: power_increasing)
  have "0 < n"
  proof (rule ccontr)
    assume "\<not> 0 < n"
    then have "ndigits n = 1" by (subst ndigits.simps) simp
    with \<open>\<not> ndigits n \<le> k\<close> k show False by simp
  qed
  then have "10 ^ (ndigits n - 1) \<le> n" by (rule ndigits_ge_pow)
  with pw lt show False by linarith
qed

lemma ndigits_times_10: "0 < n \<Longrightarrow> ndigits (n * 10) = Suc (ndigits n)"
  by (subst ndigits.simps) simp

lemma ndigits_mult_pow: "0 < n \<Longrightarrow> ndigits (n * 10 ^ d) = ndigits n + d"
proof (induction d)
  case 0
  show ?case by simp
next
  case (Suc d)
  then have "ndigits (n * 10 ^ d * 10) = Suc (ndigits n + d)"
    by (simp add: ndigits_times_10)
  moreover have "n * 10 ^ Suc d = n * 10 ^ d * 10" by simp
  ultimately show ?case by (simp only: add_Suc_right)
qed

lemma ndigits_div_10: "ndigits (n div 10) = (if 1 < ndigits n then ndigits n - 1 else 1)"
proof (cases "n < 10")
  case True
  then have "ndigits n = 1" by (subst ndigits.simps) simp
  moreover from True have "n div 10 = 0" by simp
  ultimately show ?thesis by (simp add: ndigits.simps)
next
  case False
  then have "ndigits n = Suc (ndigits (n div 10))" by (subst ndigits.simps) simp
  then show ?thesis using ndigits_pos [of "n div 10"] by simp
qed

lemma ndigits_div_pow: "ndigits (n div 10 ^ k) = (if k < ndigits n then ndigits n - k else 1)"
proof (induction k)
  case 0
  show ?case using ndigits_pos [of n] by simp
next
  case (Suc k)
  have "n div 10 ^ Suc k = (n div 10 ^ k) div 10"
    by (simp add: div_mult2_eq [symmetric] mult.commute)
  then have "ndigits (n div 10 ^ Suc k) = ndigits ((n div 10 ^ k) div 10)" by simp
  also have "\<dots> = (if 1 < ndigits (n div 10 ^ k) then ndigits (n div 10 ^ k) - 1 else 1)"
    by (rule ndigits_div_10)
  finally show ?case unfolding Suc by auto
qed

subsection \<open>Rounding to the context\<close>

lemmas ctx_defs = prec_def Emax_def Emin_def Etiny_def Etop_def

lemma round_half_even_dvd: "10 ^ k dvd c \<Longrightarrow> round_half_even c k = c div 10 ^ k"
  by (simp add: round_half_even_def Let_def)

lemma round_half_even_le: "round_half_even c k \<le> c div 10 ^ k + 1"
  by (simp add: round_half_even_def Let_def)

lemma dec_fix_zero: "dec_fix (Finite s 0 e) = Inr (Finite s 0 (min (max e Etiny) Emax))"
  by (simp add: dec_fix_def)

lemma dec_fix_id:
  assumes "0 < c" "c < 10 ^ 28" "Etiny \<le> e" "e \<le> Etop"
  shows "dec_fix (Finite s c e) = Inr (Finite s c e)"
proof -
  have "ndigits c \<le> 28" using assms(2) by (rule ndigits_le) simp
  then show ?thesis using assms
    by (simp add: dec_fix_def Let_def prec_def)
qed

lemma dec_fix_exact:
  assumes c: "0 < c"
    and ovf: "int (ndigits c) + e - 28 \<le> Etop"
    and em: "exp_min = (if int (ndigits c) + e - 28 < Etiny then Etiny else int (ndigits c) + e - 28)"
    and lt: "e < exp_min"
    and dv: "10 ^ nat (exp_min - e) dvd c"
  shows "dec_fix (Finite s c e) = Inr (Finite s (c div 10 ^ nat (exp_min - e)) exp_min)"
proof -
  let ?k = "nat (exp_min - e)"
  have r: "round_half_even c ?k = c div 10 ^ ?k" using dv by (rule round_half_even_dvd)
  have "ndigits (c div 10 ^ ?k) \<le> 28"
    unfolding ndigits_div_pow using em lt by (auto split: if_splits)
  then show ?thesis using c ovf em lt r
    by (simp add: dec_fix_def Let_def prec_def)
qed

subsection \<open>Values and truncation\<close>

lemma trunc_of_int: "trunc (of_int i) = i"
  by (simp add: trunc_def)

lemma trunc_minus: "trunc (- q) = - trunc q"
  by (cases "q = 0") (auto simp: trunc_def ceiling_minus floor_minus)

lemma trunc_div_pow:
  "trunc (of_int (signed s c) / 10 ^ k) = signed s (c div 10 ^ k)"
proof -
  have "\<lfloor>(of_nat c :: rat) / of_nat (10 ^ k)\<rfloor> = int (c div 10 ^ k)"
    by (rule floor_divide_of_nat_eq)
  then have pos: "trunc ((of_nat c :: rat) / 10 ^ k) = int (c div 10 ^ k)"
    by (simp add: trunc_def)
  show ?thesis
  proof (cases s)
    case False
    with pos show ?thesis by (simp add: signed_def)
  next
    case True
    have "trunc (- ((of_nat c :: rat) / 10 ^ k)) = - int (c div 10 ^ k)"
      unfolding trunc_minus pos ..
    with True show ?thesis by (simp add: signed_def)
  qed
qed

lemma dec_val_nonneg_exp: "0 \<le> e \<Longrightarrow> dec_val (Finite s c e) = of_int (signed s c * 10 ^ nat e)"
  by (simp add: power_int_nonneg_exp)

lemma dec_val_neg_exp: "e < 0 \<Longrightarrow> dec_val (Finite s c e) = of_int (signed s c) / 10 ^ nat (- e)"
  by (simp add: power_int_def field_simps)

lemma signed_mult: "signed s (c * m) = signed s c * int m"
  by (simp add: signed_def)

lemma int_of_to_integral:
  "\<exists>r. to_integral_value_down (Finite s c e) = Inr r
       \<and> int_of_decimal r = Inr (trunc (dec_val (Finite s c e)))"
proof (cases "0 \<le> e")
  case True
  then have "trunc (dec_val (Finite s c e)) = signed s c * 10 ^ nat e"
    by (simp only: dec_val_nonneg_exp trunc_of_int)
  with True show ?thesis by (simp add: signed_mult del: dec_val.simps)
next
  case False
  then have neg: "e < 0" by simp
  then have "trunc (dec_val (Finite s c e)) = signed s (c div 10 ^ nat (- e))"
    by (simp only: dec_val_neg_exp trunc_div_pow)
  with neg show ?thesis by (cases "c = 0") (simp_all del: dec_val.simps)
qed

lemma dec_val_shift:
  assumes "10 ^ k dvd c"
  shows "dec_val (Finite s (c div 10 ^ k) (e + int k)) = dec_val (Finite s c e)"
proof -
  from assms obtain m where m: "c = 10 ^ k * m" by (auto simp: dvd_def)
  then have "c div 10 ^ k = m" by simp
  moreover have "(10::rat) powi (e + int k) = 10 powi e * 10 ^ k"
    by (simp add: power_int_add)
  ultimately show ?thesis using m by (simp add: signed_def)
qed

lemma trunc_small: "\<bar>q\<bar> < 1 \<Longrightarrow> trunc q = 0"
  by (auto simp: trunc_def floor_eq_iff ceiling_eq_iff abs_if split: if_splits)

lemma dec_mul_pow10:
  "dec_mul (Finite s c e) (Decimal_of_int (10 ^ d)) = dec_fix (Finite s (c * 10 ^ d) e)"
  by (simp add: Decimal_of_int_def nat_power_eq)

lemma dec_fix_noround:
  assumes "0 < c" "int (ndigits c) + e - 28 \<le> Etop"
    and "(if int (ndigits c) + e - 28 < Etiny then Etiny else int (ndigits c) + e - 28) \<le> e"
  shows "dec_fix (Finite s c e) = Inr (Finite s c e)"
  using assms by (simp add: dec_fix_def Let_def prec_def)

lemma dec_fix_tiny:
  assumes c: "0 < c"
    and sub: "int (ndigits c) + e - 28 < Etiny"
    and lt: "e < Etiny"
  shows "\<exists>q. dec_fix (Finite s c e) = Inr (Finite s q Etiny) \<and> q < 10 ^ 28"
proof -
  let ?k = "nat (Etiny - e)"
  let ?q = "round_half_even c ?k"
  have "ndigits (c div 10 ^ ?k) \<le> 27"
    unfolding ndigits_div_pow using sub lt by (auto split: if_splits)
  then have "(10::nat) ^ ndigits (c div 10 ^ ?k) \<le> 10 ^ 27"
    by (rule power_increasing) simp
  with ndigits_lt_pow [of "c div 10 ^ ?k"] have "c div 10 ^ ?k < 10 ^ 27" by linarith
  with round_half_even_le [of c ?k] have q: "?q < 10 ^ 28" by simp
  then have "ndigits ?q \<le> 28" by (rule ndigits_le) simp
  moreover have "Etiny \<le> Etop" by (simp add: ctx_defs)
  ultimately have "dec_fix (Finite s c e) = Inr (Finite s ?q Etiny)"
    using c sub lt by (simp add: dec_fix_def Let_def prec_def)
  with q show ?thesis by blast
qed

subsection \<open>Scaling an amount\<close>

lemma abs_signed: "\<bar>of_int (signed s c) :: rat\<bar> = of_nat c"
  by (simp add: signed_def)

lemma dec_val_small:
  assumes "c < 10 ^ n" "int n + e \<le> 0"
  shows "\<bar>dec_val (Finite s c e)\<bar> < 1"
proof -
  have pos: "(0::rat) < 10 powi e" by (simp add: zero_less_power_int)
  have "(of_nat c :: rat) < 10 ^ n"
    using assms(1) by (metis of_nat_less_iff of_nat_numeral of_nat_power)
  then have "(of_nat c :: rat) * 10 powi e < 10 ^ n * 10 powi e"
    using pos by (simp add: mult_strict_right_mono)
  also have "(10::rat) ^ n * 10 powi e = 10 powi (int n + e)"
    by (simp add: power_int_add)
  also have "\<dots> \<le> 10 powi 0"
    using assms(2) by (intro power_int_increasing) simp_all
  finally have "(of_nat c :: rat) * 10 powi e < 1" by simp
  moreover have "\<bar>dec_val (Finite s c e)\<bar> = of_nat c * 10 powi e"
    using pos by (simp add: abs_mult abs_signed)
  ultimately show ?thesis by simp
qed

lemma dec_val_mult_pow:
  "dec_val (Finite s (c * 10 ^ d) e) = dec_val (Finite s c e) * 10 ^ d"
  by (simp add: signed_def)

lemma scale_amount_via_fix:
  assumes "dec_fix (Finite s (c * 10 ^ d) e) = Inr (Finite s' c' e')"
  shows "scale_amount d (Finite s c e) = Inr (trunc (dec_val (Finite s' c' e')))"
  using assms int_of_to_integral [of s' c' e']
  by (auto simp: scale_amount_def dec_mul_pow10 simp del: dec_val.simps to_integral_value_down.simps)

lemma scale_amount_trunc:
  assumes dig: "c < 10 ^ 28"
    and rng: "c = 0 \<or> int (ndigits c) + int d + e \<le> 1000000"
  shows "scale_amount d (Finite s c e) = Inr (trunc (dec_val (Finite s c e) * 10 ^ d))"
proof (cases "c = 0")
  case True
  have "scale_amount d (Finite s 0 e) = Inr (trunc (dec_val (Finite s 0 (min (max e Etiny) Emax))))"
    by (rule scale_amount_via_fix) (simp add: dec_fix_zero)
  with True show ?thesis by (simp add: trunc_def signed_def)
next
  case False
  let ?c = "c * 10 ^ d"
  let ?m = "int (ndigits ?c) + e - 28"
  let ?x = "if ?m < Etiny then Etiny else ?m"
  from False have c: "0 < c" and c': "0 < ?c" by simp_all
  have nd: "ndigits ?c = ndigits c + d" using c by (rule ndigits_mult_pow)
  have n28: "ndigits c \<le> 28" using dig by (rule ndigits_le) simp
  have ovf: "?m \<le> Etop" using rng False nd by (simp add: ctx_defs)
  have rhs: "dec_val (Finite s c e) * 10 ^ d = dec_val (Finite s ?c e)"
    by (simp only: dec_val_mult_pow)
  show ?thesis
  proof (cases "?x \<le> e")
    case True
    with c' ovf have "dec_fix (Finite s ?c e) = Inr (Finite s ?c e)"
      by (rule dec_fix_noround)
    then show ?thesis unfolding rhs by (rule scale_amount_via_fix)
  next
    case round: False
    show ?thesis
    proof (cases "?m < Etiny")
      case True
      with round have lt: "e < Etiny" by simp
      from dec_fix_tiny [OF c' True lt] obtain q where
        q: "dec_fix (Finite s ?c e) = Inr (Finite s q Etiny)" "q < 10 ^ 28" by blast
      have "int 28 + Etiny \<le> 0" by (simp add: ctx_defs)
      with q(2) have "\<bar>dec_val (Finite s q Etiny)\<bar> < 1" by (rule dec_val_small)
      then have l: "trunc (dec_val (Finite s q Etiny)) = 0" by (rule trunc_small)
      have "int (ndigits ?c) + e \<le> 0" using True by (simp add: ctx_defs)
      with ndigits_lt_pow [of ?c] have "\<bar>dec_val (Finite s ?c e)\<bar> < 1"
        by (rule dec_val_small)
      then have r: "trunc (dec_val (Finite s ?c e)) = 0" by (rule trunc_small)
      from scale_amount_via_fix [OF q(1)] show ?thesis unfolding rhs l r .
    next
      case False
      let ?k = "nat (?m - e)"
      from False round have lt: "e < ?m" by simp
      have xm: "?m = (if ?m < Etiny then Etiny else ?m)" using False by simp
      have kd: "?k \<le> d" using n28 nd by simp
      then have "(10::nat) ^ ?k dvd 10 ^ d" by (rule le_imp_power_dvd)
      then have dv: "10 ^ ?k dvd ?c" by (rule dvd_mult)
      have fx: "dec_fix (Finite s ?c e) = Inr (Finite s (?c div 10 ^ ?k) ?m)"
        by (rule dec_fix_exact [OF c' ovf xm lt dv])
      have me: "?m = e + int ?k" using lt by simp
      have "dec_val (Finite s (?c div 10 ^ ?k) ?m) = dec_val (Finite s ?c e)"
        by (subst me) (rule dec_val_shift [OF dv])
      with scale_amount_via_fix [OF fx] show ?thesis unfolding rhs by (simp only:)
    qed
  qed
qed

lemma replicate_numeral_eval: "replicate (numeral v) x = x # replicate (numeral v - 1) x"
  by (simp add: numeral_eq_Suc)

section \<open>Properties of prepare\_csv\<close>

subsection \<open>One row\<close>

lemma parse_row_None_iff: "parse_row row = None \<longleftrightarrow> \<not> valid_row row"
  by (auto simp: parse_row_def valid_row_def split: option.splits)

lemma process_row_invalid: "\<not> valid_row row \<Longrightarrow> process_row d m st row = Inr st"
  by (auto simp: process_row_def valid_row_def)

lemma scaled_row_valid: "scaled_row d row = Some r \<Longrightarrow> valid_row row"
  using parse_row_None_iff [of row]
  by (auto simp: scaled_row_def split: option.splits)

text \<open>What a row that does not raise does to the state.\<close>

lemma process_row_Inr:
  assumes "process_row d m st row = Inr st'"
  shows "(\<not> valid_row row \<and> scaled_row d row = None \<and> st' = st)
       \<or> (\<exists>addr a n. valid_row row \<and> scaled_row d row = Some (addr, a, n)
            \<and> dec_add (total_original st) a = Inr (total_original st')
            \<and> (if m \<le> n
                then f_out st' = f_out st @ out_line addr n \<and> count st' = count st + 1
                     \<and> dust_count st' = dust_count st \<and> dust_total st' = dust_total st
                     \<and> dec_add (total_scaled st) (Decimal_of_int n) = Inr (total_scaled st')
                else f_out st' = f_out st \<and> count st' = count st
                     \<and> dust_count st' = dust_count st + 1 \<and> total_scaled st' = total_scaled st
                     \<and> dec_add (dust_total st) a = Inr (dust_total st')))"
proof (cases "valid_row row")
  case False
  then have "scaled_row d row = None"
    using parse_row_None_iff [of row] by (simp add: scaled_row_def)
  with False assms show ?thesis by (simp add: process_row_invalid)
next
  case True
  then obtain a where a: "Decimal_of_string (strip (row ! 1)) = Some a" and len: "\<not> length row < 2"
    by (auto simp: valid_row_def)
  then have pr: "parse_row row = Some (strip (row ! 0), a)" by (simp add: parse_row_def)
  from assms a len obtain n where n: "scale_amount d a = Inr n"
    by (auto simp: process_row_def Let_def split: sum.splits)
  with pr have sr: "scaled_row d row = Some (strip (row ! 0), a, n)" by (simp add: scaled_row_def)
  from assms a len n True sr show ?thesis
    by (auto simp: process_row_def Let_def split: sum.splits if_splits)
qed

subsection \<open>The loop\<close>

lemma scaled_rows_Cons:
  "scaled_rows d (row # rows) =
     (case scaled_row d row of None \<Rightarrow> scaled_rows d rows | Some r \<Rightarrow> r # scaled_rows d rows)"
  by (simp add: scaled_rows_def split: option.split)

lemma scaled_rows_Nil: "scaled_rows d [] = []"
  by (simp add: scaled_rows_def)

lemma process_rows_Cons_Inr:
  assumes "process_rows d m st (row # rows) = Inr st'"
  obtains st1 where "process_row d m st row = Inr st1" "process_rows d m st1 rows = Inr st'"
  using assms by (auto split: sum.splits)

lemma process_rows_Inr:
  assumes "process_rows d m st rows = Inr st'"
  shows "count st' = count st + length (kept_rows d m rows)
     \<and> dust_count st' = dust_count st + length (dust_rows d m rows)
     \<and> f_out st' = f_out st @ concat (map written_line (kept_rows d m rows))
     \<and> dec_sum_from (dust_total st) (map row_amount (dust_rows d m rows)) = Inr (dust_total st')
     \<and> dec_sum_from (total_original st) (map row_amount (scaled_rows d rows))
          = Inr (total_original st')
     \<and> dec_sum_from (total_scaled st) (map (\<lambda>r. Decimal_of_int (row_scaled r)) (kept_rows d m rows))
          = Inr (total_scaled st')
     \<and> length (scaled_rows d rows) = length (filter valid_row rows)"
  using assms
proof (induction rows arbitrary: st)
  case Nil
  then show ?case by (simp add: kept_rows_def dust_rows_def scaled_rows_Nil)
next
  case (Cons row rows)
  from Cons.prems obtain st1 where
    step: "process_row d m st row = Inr st1" and rest: "process_rows d m st1 rows = Inr st'"
    by (rule process_rows_Cons_Inr)
  note ih = Cons.IH [OF rest]
  from process_row_Inr [OF step] show ?case
  proof (elim disjE exE conjE)
    assume "\<not> valid_row row" "scaled_row d row = None" "st1 = st"
    with ih show ?thesis
      by (simp add: kept_rows_def dust_rows_def scaled_rows_Cons)
  next
    fix addr a n
    assume v: "valid_row row" and sr: "scaled_row d row = Some (addr, a, n)"
      and orig: "dec_add (total_original st) a = Inr (total_original st1)"
      and br: "if m \<le> n
                then f_out st1 = f_out st @ out_line addr n \<and> count st1 = count st + 1
                     \<and> dust_count st1 = dust_count st \<and> dust_total st1 = dust_total st
                     \<and> dec_add (total_scaled st) (Decimal_of_int n) = Inr (total_scaled st1)
                else f_out st1 = f_out st \<and> count st1 = count st
                     \<and> dust_count st1 = dust_count st + 1 \<and> total_scaled st1 = total_scaled st
                     \<and> dec_add (dust_total st) a = Inr (dust_total st1)"
    show ?thesis
    proof (cases "m \<le> n")
      case True
      with br ih v sr orig show ?thesis
        by (simp add: kept_rows_def dust_rows_def scaled_rows_Cons written_line_def
            row_addr_def row_scaled_def row_amount_def)
    next
      case False
      with br ih v sr orig show ?thesis
        by (simp add: kept_rows_def dust_rows_def scaled_rows_Cons written_line_def
            row_addr_def row_scaled_def row_amount_def)
    qed
  qed
qed

lemma process_rows_filter_valid:
  "process_rows d m st rows = process_rows d m st (filter valid_row rows)"
proof (induction rows arbitrary: st)
  case Nil
  show ?case by simp
next
  case (Cons row rows)
  show ?case
  proof (cases "valid_row row")
    case True
    then show ?thesis using Cons.IH by (simp split: sum.split)
  next
    case False
    then show ?thesis using Cons.IH by (simp add: process_row_invalid)
  qed
qed

lemma prepare_csv_Completed:
  "prepare_csv (Some rows) d ma = Completed st \<longleftrightarrow>
     (\<exists>m. min_scaled_of d (min_amount_of ma) = Inr m \<and> process_rows d m prep_init rows = Inr st)"
  by (auto simp: prepare_csv_def split: sum.splits prod.splits)

lemma prepare_csv_Failed_written:
  "prepare_csv (Some rows) d ma = Failed err (Some text) \<longleftrightarrow>
     (\<exists>m. min_scaled_of d (min_amount_of ma) = Inr m
          \<and> process_rows d m prep_init rows = Inl (err, text))"
  by (auto simp: prepare_csv_def split: sum.splits prod.splits)

lemma process_row_Inl:
  assumes "process_row d m st row = Inl (err, text)"
  shows "text = f_out st
       \<or> (\<exists>addr a n. scaled_row d row = Some (addr, a, n) \<and> m \<le> n
            \<and> text = f_out st @ out_line addr n)"
proof -
  from assms have len: "\<not> length row < 2" by (auto simp: process_row_def)
  from assms len obtain a where a: "Decimal_of_string (strip (row ! 1)) = Some a"
    by (cases "Decimal_of_string (strip (row ! 1))") (auto simp: process_row_def)
  with len have pr: "parse_row row = Some (strip (row ! 0), a)" by (simp add: parse_row_def)
  show ?thesis
  proof (cases "scale_amount d a")
    case (Inl e)
    with assms a len show ?thesis by (auto simp: process_row_def Let_def split: sum.splits)
  next
    case (Inr n)
    with pr have "scaled_row d row = Some (strip (row ! 0), a, n)" by (simp add: scaled_row_def)
    with assms a len Inr show ?thesis
      by (auto simp: process_row_def Let_def split: sum.splits if_splits)
  qed
qed

lemma process_rows_Inl:
  assumes "process_rows d m st rows = Inl (err, text)"
  shows "\<exists>ks. prefix ks (kept_rows d m rows) \<and> text = f_out st @ concat (map written_line ks)"
  using assms
proof (induction rows arbitrary: st)
  case Nil
  then show ?case by simp
next
  case (Cons row rows)
  show ?case
  proof (cases "process_row d m st row")
    case (Inl e)
    with Cons.prems have e: "process_row d m st row = Inl (err, text)" by simp
    from process_row_Inl [OF e] show ?thesis
    proof (elim disjE exE conjE)
      assume "text = f_out st"
      then have "prefix [] (kept_rows d m (row # rows)) \<and> text = f_out st @ concat (map written_line [])"
        by simp
      then show ?thesis by blast
    next
      fix addr a n
      assume sr: "scaled_row d row = Some (addr, a, n)" and mn: "m \<le> n"
        and t: "text = f_out st @ out_line addr n"
      then have "prefix [(addr, a, n)] (kept_rows d m (row # rows))
          \<and> text = f_out st @ concat (map written_line [(addr, a, n)])"
        by (simp add: kept_rows_def scaled_rows_Cons written_line_def row_addr_def row_scaled_def)
      then show ?thesis by blast
    qed
  next
    case (Inr st1)
    with Cons.prems have rest: "process_rows d m st1 rows = Inl (err, text)" by simp
    from Cons.IH [OF rest] obtain ks where
      ks: "prefix ks (kept_rows d m rows)" "text = f_out st1 @ concat (map written_line ks)"
      by blast
    from process_row_Inr [OF Inr] show ?thesis
    proof (elim disjE exE conjE)
      assume "scaled_row d row = None" "st1 = st"
      with ks have "prefix ks (kept_rows d m (row # rows))
          \<and> text = f_out st @ concat (map written_line ks)"
        by (simp add: kept_rows_def scaled_rows_Cons)
      then show ?thesis by blast
    next
      fix addr a n
      assume sr: "scaled_row d row = Some (addr, a, n)"
        and br: "if m \<le> n
                then f_out st1 = f_out st @ out_line addr n \<and> count st1 = count st + 1
                     \<and> dust_count st1 = dust_count st \<and> dust_total st1 = dust_total st
                     \<and> dec_add (total_scaled st) (Decimal_of_int n) = Inr (total_scaled st1)
                else f_out st1 = f_out st \<and> count st1 = count st
                     \<and> dust_count st1 = dust_count st + 1 \<and> total_scaled st1 = total_scaled st
                     \<and> dec_add (dust_total st) a = Inr (dust_total st1)"
      show ?thesis
      proof (cases "m \<le> n")
        case True
        with br ks sr have "prefix ((addr, a, n) # ks) (kept_rows d m (row # rows))
            \<and> text = f_out st @ concat (map written_line ((addr, a, n) # ks))"
          by (simp add: kept_rows_def scaled_rows_Cons written_line_def row_addr_def row_scaled_def)
        then show ?thesis by blast
      next
        case False
        with br ks sr have "prefix ks (kept_rows d m (row # rows))
            \<and> text = f_out st @ concat (map written_line ks)"
          by (simp add: kept_rows_def scaled_rows_Cons)
        then show ?thesis by blast
      qed
    qed
  qed
qed

subsection \<open>Evaluation on concrete inputs\<close>

lemmas str_eval = strip_def is_space_def is_digit_def digit_val_def nat_of_digits_def
  to_lower_def digits_of.simps str_of_int_def digit_char_def

lemmas dec_eval = ctx_defs ndigits.simps round_half_even_def dec_fix_def Decimal_of_int_def
  signed_def Decimal_of_string_def parse_number_def parse_exponent_def all_digits_def

lemmas csv_eval = scale_amount_def min_scaled_of_def min_amount_of_def out_line_def
  process_row_def prepare_csv_def prep_init_def

lemmas fmt_eval = format_f_def zero_pad_def round_half_even_def replicate_numeral_eval

text \<open>
  A run on six rows with 18 decimals and the default minimum amount: two rows are kept,
  one is dust, an empty row, a row of one field and a row whose amount is not a number
  are skipped.
\<close>

lemma min_scaled_default_18: "min_scaled_of 18 (min_amount_of None) = Inr 10000000000000"
  by (simp add: dec_eval csv_eval)

lemma run_example:
  "prepare_csv (Some [[''0xA'', ''1.5''], [''0xB'', ''0.0000012''], [], [''x''],
      [''0xC'', ''abc''], [''0xD'', '' 2 '']]) 18 None
   = Completed \<lparr>total_scaled = Finite False 3500000000000000000 0,
        total_original = Finite False 35000012 (- 7), count = 2, dust_count = 1,
        dust_total = Finite False 12 (- 7),
        f_out = ''0xA,1500000000000000000'' @ [CHR 0x0A]
                @ ''0xD,2000000000000000000'' @ [CHR 0x0A]\<rparr>"
  by (simp add: str_eval dec_eval csv_eval)

lemma run_example_valid:
  "filter valid_row [[''0xA'', ''1.5''], [''0xB'', ''0.0000012''], [], [''x''],
      [''0xC'', ''abc''], [''0xD'', '' 2 '']]
   = [[''0xA'', ''1.5''], [''0xB'', ''0.0000012''], [''0xD'', '' 2 '']]"
  by (simp add: valid_row_def str_eval dec_eval)

lemma run_example_scaled:
  "scaled_rows 18 [[''0xA'', ''1.5''], [''0xB'', ''0.0000012''], [], [''x''],
      [''0xC'', ''abc''], [''0xD'', '' 2 '']]
   = [(''0xA'', Finite False 15 (- 1), 1500000000000000000),
      (''0xB'', Finite False 12 (- 7), 1200000000000),
      (''0xD'', Finite False 2 0, 2000000000000000000)]"
  by (simp add: scaled_rows_def scaled_row_def parse_row_def scale_amount_def str_eval dec_eval)

text \<open>A run that raises at its second row, whose amount is a NaN.\<close>

lemma run_nan:
  "prepare_csv (Some [[''0xA'', ''1.5''], [''0xB'', ''nan''], [''0xC'', ''2'']]) 18 None
   = Failed ValueError (Some (''0xA,1500000000000000000'' @ [CHR 0x0A]))"
  by (simp add: str_eval dec_eval csv_eval)

text \<open>Runs whose totals are rounded, by the context or by the printing.\<close>

lemma run_six_places:
  "prepare_csv (Some [[''0xA'', ''1.5''], [''0xB'', ''0.000001'']]) 18 None
   = Completed \<lparr>total_scaled = Finite False 1500000000000000000 0,
        total_original = Finite False 1500001 (- 6), count = 1, dust_count = 1,
        dust_total = Finite False 1 (- 6),
        f_out = ''0xA,1500000000000000000'' @ [CHR 0x0A]\<rparr>"
  by (simp add: str_eval dec_eval csv_eval)

lemma run_dust_tie:
  "prepare_csv (Some [[''0xA'', ''0.00000000005''], [''0xB'', ''1e-40'']]) 18 None
   = Completed \<lparr>total_scaled = Finite False 0 0,
        total_original = Finite False 5000000000000000000000000000 (- 38),
        count = 0, dust_count = 2,
        dust_total = Finite False 5000000000000000000000000000 (- 38), f_out = []\<rparr>"
  by (simp add: str_eval dec_eval csv_eval)

lemma run_dust_large:
  "prepare_csv (Some [[''0xA'', ''-12345678901234567890''], [''0xB'', ''0.0000000004'']]) 18 None
   = Completed \<lparr>total_scaled = Finite False 0 0,
        total_original = Finite True 1234567890123456789000000000 (- 8),
        count = 0, dust_count = 2,
        dust_total = Finite True 1234567890123456789000000000 (- 8), f_out = []\<rparr>"
  by (simp add: str_eval dec_eval csv_eval)

lemma run_seven_places:
  "prepare_csv (Some [[''0xA'', ''1''], [''0xB'', ''0.0000012'']]) 18 None
   = Completed \<lparr>total_scaled = Finite False 1000000000000000000 0,
        total_original = Finite False 10000012 (- 7), count = 1, dust_count = 1,
        dust_total = Finite False 12 (- 7),
        f_out = ''0xA,1000000000000000000'' @ [CHR 0x0A]\<rparr>"
  by (simp add: str_eval dec_eval csv_eval)

lemma run_total_rounded:
  "prepare_csv (Some [[''0xA'', ''1''], [''0xB'', ''1e-28'']]) 18 None
   = Completed \<lparr>total_scaled = Finite False 1000000000000000000 0,
        total_original = Finite False 1000000000000000000000000000 (- 27),
        count = 1, dust_count = 1, dust_total = Finite False 1 (- 28),
        f_out = ''0xA,1000000000000000000'' @ [CHR 0x0A]\<rparr>"
  by (simp add: str_eval dec_eval csv_eval)

lemmas row_eval = scaled_rows_def scaled_row_def parse_row_def scale_amount_def
  kept_rows_def dust_rows_def valid_amounts_def

subsection \<open>Sums that the context does not round\<close>

lemma signed_nat_abs: "signed (if n = 0 then b else n < 0) (nat \<bar>n\<bar>) = n"
  by (simp add: signed_def)

lemma pow_shift:
  assumes "e \<le> e1"
  shows "(10::rat) ^ nat (e1 - e) * 10 powi e = 10 powi e1"
proof -
  have "(10::rat) powi (int (nat (e1 - e)) + e) = 10 powi int (nat (e1 - e)) * 10 powi e"
    by (rule power_int_add) simp
  moreover have "int (nat (e1 - e)) + e = e1" using assms by simp
  ultimately show ?thesis by (simp only: power_int_of_nat)
qed

lemma dec_add_finite_val:
  "of_int (signed s1 c1 * 10 ^ nat (e1 - min e1 e2) + signed s2 c2 * 10 ^ nat (e2 - min e1 e2))
     * 10 powi (min e1 e2)
   = dec_val (Finite s1 c1 e1) + dec_val (Finite s2 c2 e2)"
proof -
  have "min e1 e2 \<le> e1" "min e1 e2 \<le> e2" by simp_all
  then have "(10::rat) ^ nat (e1 - min e1 e2) * 10 powi (min e1 e2) = 10 powi e1"
    "(10::rat) ^ nat (e2 - min e1 e2) * 10 powi (min e1 e2) = 10 powi e2"
    by (simp_all only: pow_shift)
  then show ?thesis
    by (simp add: algebra_simps)
qed

lemma dec_add_exact:
  assumes e1: "- int k \<le> e1" "e1 \<le> 0" and e2: "- int k \<le> e2"
    and bound: "(\<bar>dec_val (Finite s1 c1 e1)\<bar> + \<bar>dec_val (Finite s2 c2 e2)\<bar>) * 10 ^ k < 10 ^ 28"
    and k: "int k \<le> 1000026"
  shows "\<exists>s c e. dec_add (Finite s1 c1 e1) (Finite s2 c2 e2) = Inr (Finite s c e)
          \<and> - int k \<le> e \<and> e \<le> 0
          \<and> dec_val (Finite s c e) = dec_val (Finite s1 c1 e1) + dec_val (Finite s2 c2 e2)"
proof -
  define e where "e = min e1 e2"
  define n where "n = signed s1 c1 * 10 ^ nat (e1 - e) + signed s2 c2 * 10 ^ nat (e2 - e)"
  define sg where "sg = (if n = 0 then s1 \<and> s2 else n < 0)"
  let ?v = "dec_val (Finite s1 c1 e1) + dec_val (Finite s2 c2 e2)"
  have er: "- int k \<le> e" "e \<le> 0" using e1 e2 by (simp_all add: e_def)
  have val: "of_int n * 10 powi e = ?v"
    unfolding n_def e_def by (rule dec_add_finite_val)
  have sgn: "signed sg (nat \<bar>n\<bar>) = n" unfolding sg_def by (rule signed_nat_abs)
  then have rv: "dec_val (Finite sg (nat \<bar>n\<bar>) e) = ?v" using val by simp
  have pos: "(0::rat) < 10 powi e" by (simp add: zero_less_power_int)
  have "(10::rat) powi (- e) \<le> 10 powi int k"
    using er by (intro power_int_increasing) simp_all
  then have le: "(10::rat) powi (- e) \<le> 10 ^ k" by simp
  have "of_int n = ?v * 10 powi (- e)"
    using val pos by (simp add: power_int_minus field_simps)
  then have "\<bar>of_int n :: rat\<bar> = \<bar>?v\<bar> * 10 powi (- e)"
    by (simp add: abs_mult zero_le_power_int)
  also have "\<dots> \<le> \<bar>?v\<bar> * 10 ^ k"
    using le by (rule mult_left_mono) simp
  also have "\<dots> \<le> (\<bar>dec_val (Finite s1 c1 e1)\<bar> + \<bar>dec_val (Finite s2 c2 e2)\<bar>) * 10 ^ k"
    by (rule mult_right_mono) simp_all
  also note bound
  finally have "\<bar>of_int n :: rat\<bar> < 10 ^ 28" .
  then have "(of_int \<bar>n\<bar> :: rat) < of_int (10 ^ 28)" by simp
  then have "\<bar>n\<bar> < 10 ^ 28" by (simp only: of_int_less_iff)
  then have small: "nat \<bar>n\<bar> < 10 ^ 28" by simp
  have rng: "Etiny \<le> e" "e \<le> Etop" "e \<le> Emax" using er k by (simp_all add: ctx_defs)
  have fx: "dec_fix (Finite sg (nat \<bar>n\<bar>) e) = Inr (Finite sg (nat \<bar>n\<bar>) e)"
  proof (cases "n = 0")
    case True
    then show ?thesis using rng by (simp add: dec_fix_zero)
  next
    case False
    then have "0 < nat \<bar>n\<bar>" by simp
    then show ?thesis using small rng(1,2) by (rule dec_fix_id)
  qed
  have "dec_add (Finite s1 c1 e1) (Finite s2 c2 e2) = dec_fix (Finite sg (nat \<bar>n\<bar>) e)"
    unfolding sg_def n_def e_def by (simp add: Let_def)
  with fx have "dec_add (Finite s1 c1 e1) (Finite s2 c2 e2) = Inr (Finite sg (nat \<bar>n\<bar>) e)"
    by simp
  with er rv show ?thesis by blast
qed

lemma places_le_cases:
  assumes "places_le k x"
  obtains s c e where "x = Finite s c e" "- int k \<le> e"
  using assms by (cases x) simp_all

lemma dec_sum_from_exact:
  assumes "\<forall>x\<in>set xs. places_le k x"
    and "- int k \<le> e" "e \<le> 0"
    and "(\<bar>dec_val (Finite s c e)\<bar> + sum_list (map (\<lambda>x. \<bar>dec_val x\<bar>) xs)) * 10 ^ k < 10 ^ 28"
    and "int k \<le> 1000026"
  shows "\<exists>s' c' e'. dec_sum_from (Finite s c e) xs = Inr (Finite s' c' e')
          \<and> - int k \<le> e' \<and> e' \<le> 0
          \<and> dec_val (Finite s' c' e') = dec_val (Finite s c e) + sum_list (map dec_val xs)"
  using assms
proof (induction xs arbitrary: s c e)
  case Nil
  then show ?case by simp
next
  case (Cons x xs)
  from Cons.prems(1) have "places_le k x" by simp
  then obtain s2 c2 e2 where x: "x = Finite s2 c2 e2" and e2: "- int k \<le> e2"
    by (rule places_le_cases)
  let ?a = "\<bar>dec_val (Finite s c e)\<bar>" and ?b = "\<bar>dec_val (Finite s2 c2 e2)\<bar>"
  let ?r = "sum_list (map (\<lambda>x. \<bar>dec_val x\<bar>) xs)"
  have r0: "0 \<le> ?r" by (rule sum_list_nonneg) auto
  have tot: "(?a + (?b + ?r)) * 10 ^ k < 10 ^ 28"
    using Cons.prems(4) x by (simp del: dec_val.simps)
  have "?a + ?b \<le> ?a + (?b + ?r)" using r0 by linarith
  then have "(?a + ?b) * 10 ^ k \<le> (?a + (?b + ?r)) * 10 ^ k"
    by (rule mult_right_mono) simp
  from this tot have b1: "(?a + ?b) * 10 ^ k < 10 ^ 28" by (rule le_less_trans)
  from dec_add_exact [OF Cons.prems(2,3) e2 b1 Cons.prems(5)] obtain s1 c1 e1 where
    add: "dec_add (Finite s c e) (Finite s2 c2 e2) = Inr (Finite s1 c1 e1)"
    and e1: "- int k \<le> e1" "e1 \<le> 0"
    and v1: "dec_val (Finite s1 c1 e1) = dec_val (Finite s c e) + dec_val (Finite s2 c2 e2)"
    by blast
  have "\<bar>dec_val (Finite s1 c1 e1)\<bar> \<le> ?a + ?b" unfolding v1 by (rule abs_triangle_ineq)
  then have "\<bar>dec_val (Finite s1 c1 e1)\<bar> + ?r \<le> ?a + (?b + ?r)" by linarith
  then have "(\<bar>dec_val (Finite s1 c1 e1)\<bar> + ?r) * 10 ^ k \<le> (?a + (?b + ?r)) * 10 ^ k"
    by (rule mult_right_mono) simp
  from this tot have b2: "(\<bar>dec_val (Finite s1 c1 e1)\<bar> + ?r) * 10 ^ k < 10 ^ 28"
    by (rule le_less_trans)
  from Cons.prems(1) have all: "\<forall>x\<in>set xs. places_le k x" by simp
  from Cons.IH [OF all e1 b2 Cons.prems(5)] obtain s' c' e' where
    "dec_sum_from (Finite s1 c1 e1) xs = Inr (Finite s' c' e')" "- int k \<le> e'" "e' \<le> 0"
    "dec_val (Finite s' c' e') = dec_val (Finite s1 c1 e1) + sum_list (map dec_val xs)"
    by blast
  then have "dec_sum_from (Finite s c e) (x # xs) = Inr (Finite s' c' e') \<and> - int k \<le> e' \<and> e' \<le> 0
      \<and> dec_val (Finite s' c' e') = dec_val (Finite s c e) + sum_list (map dec_val (x # xs))"
    using add x v1 by (simp del: dec_val.simps dec_add.simps)
  then show ?case by blast
qed

lemma dec_sum_exact:
  assumes "\<forall>x\<in>set xs. places_le k x"
    and "sum_list (map (\<lambda>x. \<bar>dec_val x\<bar>) xs) * 10 ^ k < 10 ^ 28"
    and "int k \<le> 1000026"
  shows "\<exists>s c e. dec_sum xs = Inr (Finite s c e) \<and> - int k \<le> e
          \<and> dec_val (Finite s c e) = sum_list (map dec_val xs)"
proof -
  have "(\<bar>dec_val (Finite False 0 0)\<bar> + sum_list (map (\<lambda>x. \<bar>dec_val x\<bar>) xs)) * 10 ^ k < 10 ^ 28"
    using assms(2) by (simp add: signed_def)
  from dec_sum_from_exact [OF assms(1) _ _ this assms(3)]
  show ?thesis unfolding dec_sum_def by (fastforce simp: signed_def)
qed

lemma rescale_exact:
  assumes "- int p \<le> e"
  shows "dec_val (rescale_half_even (- int p) (Finite s c e)) = dec_val (Finite s c e)"
proof (cases "c = 0")
  case True
  then show ?thesis by (simp add: signed_def)
next
  case False
  have "(10::rat) ^ nat (e - (- int p)) * 10 powi (- int p) = 10 powi e"
    using assms by (rule pow_shift)
  then have "of_int (signed s c) * ((10::rat) ^ nat (e + int p) * 10 powi (- int p))
      = of_int (signed s c) * 10 powi e" by simp
  with False assms show ?thesis
    by (simp add: signed_mult mult.assoc del: power_int_minus)
qed

lemma sum_list_filter_split:
  fixes f :: "'a \<Rightarrow> rat"
  shows "sum_list (map f xs) = sum_list (map f (filter P xs)) + sum_list (map f (filter (\<lambda>x. \<not> P x) xs))"
  by (induction xs) simp_all

lemma sum_list_filter_le:
  fixes f :: "'a \<Rightarrow> rat"
  assumes "\<And>x. 0 \<le> f x"
  shows "sum_list (map f (filter P xs)) \<le> sum_list (map f xs)"
  by (induction xs) (simp_all add: assms add_increasing)

lemma scaled_row_parse: "scaled_row d row = Some (addr, a, n) \<Longrightarrow> parse_row row = Some (addr, a)"
  by (auto simp: scaled_row_def split: option.splits sum.splits)

lemma valid_amounts_Cons:
  "valid_amounts (row # rows) =
     (case parse_row row of None \<Rightarrow> valid_amounts rows | Some p \<Rightarrow> snd p # valid_amounts rows)"
  by (simp add: valid_amounts_def split: option.split)

lemma length_valid_amounts: "length (valid_amounts rows) = length (filter valid_row rows)"
proof (induction rows)
  case Nil
  show ?case by (simp add: valid_amounts_def)
next
  case (Cons row rows)
  then show ?case
    using parse_row_None_iff [of row]
    by (cases "parse_row row") (simp_all add: valid_amounts_Cons)
qed

lemma completed_valid_amounts:
  assumes "process_rows d m st rows = Inr st'"
  shows "valid_amounts rows = map row_amount (scaled_rows d rows)"
  using assms
proof (induction rows arbitrary: st)
  case Nil
  show ?case by (simp add: valid_amounts_def scaled_rows_Nil)
next
  case (Cons row rows)
  from Cons.prems obtain st1 where
    step: "process_row d m st row = Inr st1" and rest: "process_rows d m st1 rows = Inr st'"
    by (rule process_rows_Cons_Inr)
  note ih = Cons.IH [OF rest]
  from process_row_Inr [OF step] show ?case
  proof (elim disjE exE conjE)
    assume "\<not> valid_row row" "scaled_row d row = None"
    then show ?thesis using ih parse_row_None_iff [of row]
      by (simp add: valid_amounts_Cons scaled_rows_Cons)
  next
    fix addr a n
    assume sr: "scaled_row d row = Some (addr, a, n)"
    from scaled_row_parse [OF sr] sr show ?thesis using ih
      by (simp add: valid_amounts_Cons scaled_rows_Cons row_amount_def)
  qed
qed

lemma dust_rows_alt:
  "dust_rows d m rows
     = filter (\<lambda>r. \<not> (case r of (addr, amount, amount_int) \<Rightarrow> m \<le> amount_int)) (scaled_rows d rows)"
  unfolding dust_rows_def by (rule filter_cong) auto

lemma sum_kept_dust:
  fixes f :: "string \<times> decimal \<times> int \<Rightarrow> rat"
  shows "sum_list (map f (scaled_rows d rows))
     = sum_list (map f (kept_rows d m rows)) + sum_list (map f (dust_rows d m rows))"
  unfolding dust_rows_alt kept_rows_def by (rule sum_list_filter_split)

lemma dust_subset: "set (dust_rows d m rows) \<subseteq> set (scaled_rows d rows)"
  by (auto simp: dust_rows_def)

lemma sum_dust_le:
  fixes f :: "string \<times> decimal \<times> int \<Rightarrow> rat"
  assumes "\<And>x. 0 \<le> f x"
  shows "sum_list (map f (dust_rows d m rows)) \<le> sum_list (map f (scaled_rows d rows))"
  unfolding dust_rows_def using assms by (rule sum_list_filter_le)

text \<open>The dust total, when the context rounds none of the partial sums.\<close>

lemma dust_total_exact:
  assumes run: "process_rows d m prep_init rows = Inr st"
    and pl: "\<forall>r\<in>set (dust_rows d m rows). places_le k (row_amount r)"
    and bd: "sum_list (map (\<lambda>r. \<bar>dec_val (row_amount r)\<bar>) (dust_rows d m rows)) * 10 ^ k < 10 ^ 28"
    and k: "k \<le> 28"
  shows "dec_val (dust_total st) = sum_list (map (\<lambda>r. dec_val (row_amount r)) (dust_rows d m rows))
       \<and> (\<forall>p. k \<le> p \<longrightarrow> dec_val (rescale_half_even (- int p) (dust_total st)) = dec_val (dust_total st))"
proof -
  let ?xs = "map row_amount (dust_rows d m rows)"
  from process_rows_Inr [OF run] have s: "dec_sum ?xs = Inr (dust_total st)"
    by (simp add: dec_sum_def prep_init_def)
  have 1: "\<forall>x\<in>set ?xs. places_le k x" using pl by simp
  have 2: "sum_list (map (\<lambda>x. \<bar>dec_val x\<bar>) ?xs) * 10 ^ k < 10 ^ 28"
    using bd by (simp add: comp_def)
  have 3: "int k \<le> 1000026" using k by simp
  from dec_sum_exact [OF 1 2 3] s obtain sg c e where
    dt: "dust_total st = Finite sg c e" and e: "- int k \<le> e"
    and v: "dec_val (Finite sg c e) = sum_list (map dec_val ?xs)" by auto
  have "dec_val (rescale_half_even (- int p) (dust_total st)) = dec_val (dust_total st)"
    if "k \<le> p" for p
    unfolding dt using e that by (intro rescale_exact) simp
  with v dt show ?thesis by (simp add: comp_def del: dec_val.simps)
qed

lemma original_total_exact:
  assumes run: "process_rows d m prep_init rows = Inr st"
    and pl: "\<forall>a\<in>set (valid_amounts rows). places_le k a"
    and bd: "sum_list (map (\<lambda>a. \<bar>dec_val a\<bar>) (valid_amounts rows)) * 10 ^ k < 10 ^ 28"
    and k: "k \<le> 28"
  shows "dec_val (total_original st) = sum_list (map dec_val (valid_amounts rows))
       \<and> (\<forall>p. k \<le> p \<longrightarrow>
             dec_val (rescale_half_even (- int p) (total_original st)) = dec_val (total_original st))"
proof -
  let ?xs = "valid_amounts rows"
  have va: "?xs = map row_amount (scaled_rows d rows)"
    using run by (rule completed_valid_amounts)
  from process_rows_Inr [OF run] have s: "dec_sum ?xs = Inr (total_original st)"
    by (simp add: dec_sum_def prep_init_def va)
  have 3: "int k \<le> 1000026" using k by simp
  from dec_sum_exact [OF pl bd 3] s obtain sg c e where
    dt: "total_original st = Finite sg c e" and e: "- int k \<le> e"
    and v: "dec_val (Finite sg c e) = sum_list (map dec_val ?xs)" by auto
  have "dec_val (rescale_half_even (- int p) (total_original st)) = dec_val (total_original st)"
    if "k \<le> p" for p
    unfolding dt using e that by (intro rescale_exact) simp
  with v dt show ?thesis by (simp del: dec_val.simps)
qed

subsection \<open>The scaled amount\<close>

lemma dec_val_nonneg: "\<not> s \<Longrightarrow> 0 \<le> dec_val (Finite s c e)"
  by (simp add: signed_def zero_le_power_int)

text \<open>
  C1, amended. For an amount that is a finite Decimal of at most 28 significant digits,
  and whose scaled value does not overflow the context (it is zero, or its adjusted
  exponent is at most 999999), the scaled amount is \<open>a * 10^d\<close> truncated towards zero;
  for a non-negative amount that is \<open>floor (a * 10^d)\<close>. The amount 1.999995 with 5
  decimals gives 199999.
\<close>

theorem scaled_amount_truncates:
  assumes "c < 10 ^ 28" and "c = 0 \<or> int (ndigits c) + int d + e \<le> 1000000"
  shows "scale_amount d (Finite s c e) = Inr (trunc (dec_val (Finite s c e) * 10 ^ d))
       \<and> (\<not> s \<longrightarrow> scale_amount d (Finite s c e) = Inr \<lfloor>dec_val (Finite s c e) * 10 ^ d\<rfloor>)
       \<and> (parse_row row = Some (addr, Finite s c e) \<longrightarrow>
            scaled_row d row = Some (addr, Finite s c e, trunc (dec_val (Finite s c e) * 10 ^ d)))
       \<and> Decimal_of_string ''1.999995'' = Some (Finite False 1999995 (- 6))
       \<and> scale_amount 5 (Finite False 1999995 (- 6)) = Inr 199999"
proof -
  have t: "scale_amount d (Finite s c e) = Inr (trunc (dec_val (Finite s c e) * 10 ^ d))"
    using assms by (rule scale_amount_trunc)
  have "0 \<le> dec_val (Finite s c e) * 10 ^ d" if "\<not> s"
    using dec_val_nonneg [OF that, of c e] by simp
  then have f: "\<not> s \<longrightarrow> scale_amount d (Finite s c e) = Inr \<lfloor>dec_val (Finite s c e) * 10 ^ d\<rfloor>"
    unfolding t by (simp add: trunc_def)
  have r: "parse_row row = Some (addr, Finite s c e) \<longrightarrow>
            scaled_row d row = Some (addr, Finite s c e, trunc (dec_val (Finite s c e) * 10 ^ d))"
    by (simp add: scaled_row_def t del: dec_val.simps)
  have p: "Decimal_of_string ''1.999995'' = Some (Finite False 1999995 (- 6))"
    by (simp add: str_eval dec_eval)
  have x: "scale_amount 5 (Finite False 1999995 (- 6)) = Inr 199999"
    by (simp add: dec_eval csv_eval)
  from t f r p x show ?thesis by blast
qed

theorem scaled_amount_truncates_witness:
  "(1999995::nat) < 10 ^ 28
   \<and> ((1999995::nat) = 0 \<or> int (ndigits 1999995) + int 5 + (- 6) \<le> 1000000)
   \<and> scale_amount 5 (Finite False 1999995 (- 6))
       = Inr (trunc (dec_val (Finite False 1999995 (- 6)) * 10 ^ 5))
   \<and> trunc (dec_val (Finite False 1999995 (- 6)) * 10 ^ 5) = 199999
   \<and> scale_amount 18 (Finite True 15 (- 19)) = Inr (\<lfloor>dec_val (Finite True 15 (- 19)) * 10 ^ 18\<rfloor> + 1)"
proof -
  have h1: "(1999995::nat) < 10 ^ 28" by simp
  have h2: "(1999995::nat) = 0 \<or> int (ndigits 1999995) + int 5 + (- 6) \<le> 1000000"
    by (simp add: ndigits.simps)
  have h3: "(15::nat) < 10 ^ 28" by simp
  have h4: "(15::nat) = 0 \<or> int (ndigits 15) + int 18 + (- 19) \<le> 1000000"
    by (simp add: ndigits.simps)
  have v: "trunc (dec_val (Finite False 1999995 (- 6)) * 10 ^ 5) = 199999"
    by (simp add: trunc_def signed_def floor_eq_iff)
  have w: "trunc (dec_val (Finite True 15 (- 19)) * 10 ^ 18) = - 1"
     "\<lfloor>dec_val (Finite True 15 (- 19)) * 10 ^ 18\<rfloor> = - 2"
    by (simp_all add: trunc_def signed_def floor_eq_iff ceiling_eq_iff)
  from scaled_amount_truncates [OF h1 h2, of False] scaled_amount_truncates [OF h3 h4, of True]
    h1 h2 v w show ?thesis by simp
qed

text \<open>
  C1 as stated fails. A negative amount is truncated towards zero, not floored. An amount
  of more than 28 significant digits is first rounded half-even to 28 digits by the
  multiplication, which can round up. A product beyond the exponent range raises
  \<open>Overflow\<close>.
\<close>

theorem scaled_amount_floor_counterexample:
  "Decimal_of_string ''-0.0000000000000000015'' = Some (Finite True 15 (- 19))
   \<and> scale_amount 18 (Finite True 15 (- 19)) = Inr (- 1)
   \<and> \<lfloor>dec_val (Finite True 15 (- 19)) * 10 ^ 18\<rfloor> = - 2
   \<and> Decimal_of_string ''12345678901.123456789012345675''
       = Some (Finite False 12345678901123456789012345675 (- 18))
   \<and> scale_amount 18 (Finite False 12345678901123456789012345675 (- 18))
       = Inr 12345678901123456789012345680
   \<and> \<lfloor>dec_val (Finite False 12345678901123456789012345675 (- 18)) * 10 ^ 18\<rfloor>
       = 12345678901123456789012345675
   \<and> Decimal_of_string ''1e1000000'' = Some (Finite False 1 1000000)
   \<and> scale_amount 18 (Finite False 1 1000000) = Inl Overflow"
  by (simp add: str_eval dec_eval csv_eval floor_eq_iff)

subsection \<open>Records and lines\<close>

lemma digits_of_digits: "set (digits_of n) \<subseteq> set ''0123456789''"
proof (induction n rule: digits_of.induct)
  case (1 n)
  have dc: "digit_char d \<in> set ''0123456789''" if "d < 10" for d
    unfolding digit_char_def by (rule nth_mem) (use that in simp)
  show ?case
  proof (cases "n < 10")
    case True
    then show ?thesis using dc [of n] by (subst digits_of.simps) simp
  next
    case False
    have "n mod 10 < 10" by simp
    with 1 False dc [of "n mod 10"] show ?thesis by (subst digits_of.simps) simp
  qed
qed

lemma str_of_int_no_lf: "CHR 0x0A \<notin> set (str_of_int i)"
  using digits_of_digits [of "nat i"] digits_of_digits [of "nat (- i)"]
  by (auto simp: str_of_int_def)

lemma split_nl_line:
  "CHR 0x0A \<notin> set l \<Longrightarrow> split_nl (l @ CHR 0x0A # rest) = l # split_nl rest"
  by (induction l) auto

lemma written_line_record: "written_line r = record_of r @ [CHR 0x0A]"
  by (simp add: written_line_def record_of_def out_line_def)

lemma record_no_lf: "CHR 0x0A \<notin> set (row_addr r) \<Longrightarrow> CHR 0x0A \<notin> set (record_of r)"
  using str_of_int_no_lf [of "row_scaled r"] by (simp add: record_of_def)

lemma split_nl_records:
  assumes "\<forall>r\<in>set rs. CHR 0x0A \<notin> set (row_addr r)"
  shows "split_nl (concat (map written_line rs)) = map record_of rs @ [[]]"
  using assms
proof (induction rs)
  case Nil
  show ?case by simp
next
  case (Cons r rs)
  then have "CHR 0x0A \<notin> set (record_of r)" by (simp add: record_no_lf)
  then have a: "split_nl (record_of r @ CHR 0x0A # concat (map written_line rs))
      = record_of r # split_nl (concat (map written_line rs))"
    by (rule split_nl_line)
  have b: "concat (map written_line (r # rs))
      = record_of r @ CHR 0x0A # concat (map written_line rs)"
    by (simp add: written_line_record [of r])
  from Cons have c: "split_nl (concat (map written_line rs)) = map record_of rs @ [[]]"
    by simp
  show ?case unfolding b a c by simp
qed

subsection \<open>Runs that complete\<close>

lemma acc_ok_cases:
  assumes "acc_ok k x"
  obtains s c e where "x = Finite s c e" "- int k \<le> e" "e \<le> 0"
  using assms by (cases x) simp_all

lemma dec_add_acc:
  assumes x: "acc_ok k x" and y: "places_le k y"
    and bound: "(\<bar>dec_val x\<bar> + \<bar>dec_val y\<bar>) * 10 ^ k < 10 ^ 28"
    and k: "int k \<le> 1000026"
  shows "\<exists>r. dec_add x y = Inr r \<and> acc_ok k r \<and> dec_val r = dec_val x + dec_val y"
proof -
  from x obtain s1 c1 e1 where x': "x = Finite s1 c1 e1" and e1: "- int k \<le> e1" "e1 \<le> 0"
    by (rule acc_ok_cases)
  from y obtain s2 c2 e2 where y': "y = Finite s2 c2 e2" and e2: "- int k \<le> e2"
    by (rule places_le_cases)
  from dec_add_exact [OF e1 e2 bound [unfolded x' y'] k] obtain s c e where
    "dec_add (Finite s1 c1 e1) (Finite s2 c2 e2) = Inr (Finite s c e)" "- int k \<le> e" "e \<le> 0"
    "dec_val (Finite s c e) = dec_val (Finite s1 c1 e1) + dec_val (Finite s2 c2 e2)" by blast
  then have "dec_add x y = Inr (Finite s c e) \<and> acc_ok k (Finite s c e)
      \<and> dec_val (Finite s c e) = dec_val x + dec_val y"
    unfolding x' y' by (simp del: dec_add.simps dec_val.simps)
  then show ?thesis by blast
qed

lemma trunc_abs_le: "\<bar>of_int (trunc q) :: rat\<bar> \<le> \<bar>q\<bar>"
proof (cases "0 \<le> q")
  case True
  then have "0 \<le> \<lfloor>q\<rfloor>" by simp
  then have "\<bar>of_int \<lfloor>q\<rfloor> :: rat\<bar> = of_int \<lfloor>q\<rfloor>" by simp
  also have "\<dots> \<le> q" by (rule of_int_floor_le)
  finally show ?thesis using True by (simp add: trunc_def)
next
  case False
  then have "\<lceil>q\<rceil> \<le> 0" by (simp add: ceiling_le_iff)
  then have "\<bar>of_int \<lceil>q\<rceil> :: rat\<bar> = - of_int \<lceil>q\<rceil>" by simp
  also have "\<dots> \<le> - q" using le_of_int_ceiling [of q] by simp
  finally show ?thesis using False by (simp add: trunc_def)
qed

lemma scale_amount_places:
  assumes pl: "places_le k a"
    and bk: "\<bar>dec_val a\<bar> * 10 ^ k < 10 ^ 28"
    and bd: "\<bar>dec_val a\<bar> * 10 ^ d < 10 ^ 28"
  shows "\<exists>n. scale_amount d a = Inr n \<and> \<bar>of_int n :: rat\<bar> \<le> \<bar>dec_val a\<bar> * 10 ^ d"
proof -
  from pl obtain s c e where a: "a = Finite s c e" and e: "- int k \<le> e"
    by (rule places_le_cases)
  have pos: "(0::rat) < 10 powi e" by (simp add: zero_less_power_int)
  have av: "\<bar>dec_val a\<bar> = of_nat c * 10 powi e"
    unfolding a using pos by (simp add: abs_mult abs_signed)
  have "(10::rat) powi (- e) \<le> 10 powi int k"
    using e by (intro power_int_increasing) simp_all
  then have le: "(10::rat) powi (- e) \<le> 10 ^ k" by simp
  have "(of_nat c :: rat) = (of_nat c * 10 powi e) * 10 powi (- e)"
    using pos by (simp add: power_int_minus field_simps)
  also have "\<dots> \<le> (of_nat c * 10 powi e) * 10 ^ k"
    using le by (rule mult_left_mono) (use pos in simp)
  also have "\<dots> < 10 ^ 28" using bk unfolding av .
  finally have "(of_nat c :: rat) < of_nat (10 ^ 28)" by simp
  then have dig: "c < 10 ^ 28" by (simp only: of_nat_less_iff)
  have rng: "c = 0 \<or> int (ndigits c) + int d + e \<le> 1000000"
  proof (rule ccontr)
    assume "\<not> ?thesis"
    then have c: "0 < c" and big: "1000000 < int (ndigits c) + int d + e" by simp_all
    let ?j = "int (ndigits c - 1) + int d + e"
    from big ndigits_pos [of c] have "28 \<le> ?j" by simp
    then have "(10::rat) powi 28 \<le> 10 powi ?j"
      by (intro power_int_increasing) simp_all
    moreover have "(10::rat) powi ?j = 10 ^ (ndigits c - 1) * 10 ^ d * 10 powi e"
      by (simp add: power_int_add)
    moreover have "(10::rat) ^ (ndigits c - 1) * 10 ^ d * 10 powi e \<le> of_nat c * 10 ^ d * 10 powi e"
    proof -
      from ndigits_ge_pow [OF c] have "(of_nat (10 ^ (ndigits c - 1)) :: rat) \<le> of_nat c"
        by (simp only: of_nat_le_iff)
      then have "(10::rat) ^ (ndigits c - 1) \<le> of_nat c" by simp
      then have "(10::rat) ^ (ndigits c - 1) * (10 ^ d * 10 powi e) \<le> of_nat c * (10 ^ d * 10 powi e)"
        by (rule mult_right_mono) (use pos in simp)
      then show ?thesis by (simp only: mult.assoc)
    qed
    moreover have "of_nat c * 10 ^ d * 10 powi e = \<bar>dec_val a\<bar> * 10 ^ d"
      unfolding av by (simp only: mult_ac)
    ultimately have "(10::rat) powi 28 \<le> \<bar>dec_val a\<bar> * 10 ^ d" by (simp only:)
    with bd show False by simp
  qed
  from dig rng have "scale_amount d (Finite s c e) = Inr (trunc (dec_val (Finite s c e) * 10 ^ d))"
    by (rule scale_amount_trunc)
  moreover have "\<bar>of_int (trunc (dec_val a * 10 ^ d)) :: rat\<bar> \<le> \<bar>dec_val a * 10 ^ d\<bar>"
    by (rule trunc_abs_le)
  then have "\<bar>of_int (trunc (dec_val a * 10 ^ d)) :: rat\<bar> \<le> \<bar>dec_val a\<bar> * 10 ^ d"
    by (simp add: abs_mult)
  ultimately show ?thesis unfolding a by blast
qed

lemma dec_val_of_int: "dec_val (Decimal_of_int n) = of_int n"
  by (simp add: Decimal_of_int_def signed_def)

lemma bound_part:
  fixes x y r p B :: rat
  assumes "(x + (y + r)) * p < B" "0 \<le> r" "0 \<le> p" "0 \<le> x"
  shows "(x + y) * p < B" "y * p < B"
proof -
  have "(x + y) * p \<le> (x + (y + r)) * p"
    by (rule mult_right_mono) (use assms in simp_all)
  with assms(1) show "(x + y) * p < B" by simp
  have "y * p \<le> (x + (y + r)) * p"
    by (rule mult_right_mono) (use assms in simp_all)
  with assms(1) show "y * p < B" by simp
qed

lemma bound_next:
  fixes x x' y r p B :: rat
  assumes "(x + (y + r)) * p < B" "x' \<le> x + y" "0 \<le> p"
  shows "(x' + r) * p < B"
proof -
  have "(x' + r) * p \<le> (x + (y + r)) * p"
    by (rule mult_right_mono) (use assms in simp_all)
  with assms(1) show ?thesis by simp
qed

lemma process_row_completes:
  assumes pr: "parse_row row = Some (addr, a)"
    and pl: "places_le k a"
    and inv: "acc_ok k (total_original st)" "acc_ok k (dust_total st)" "acc_ok 0 (total_scaled st)"
    and b1: "(\<bar>dec_val (total_original st)\<bar> + \<bar>dec_val a\<bar>) * 10 ^ k < 10 ^ 28"
    and b2: "(\<bar>dec_val (dust_total st)\<bar> + \<bar>dec_val a\<bar>) * 10 ^ k < 10 ^ 28"
    and b3: "\<bar>dec_val (total_scaled st)\<bar> + \<bar>dec_val a\<bar> * 10 ^ d < 10 ^ 28"
    and k: "k \<le> 28"
  shows "\<exists>st'. process_row d m st row = Inr st'
      \<and> acc_ok k (total_original st') \<and> acc_ok k (dust_total st') \<and> acc_ok 0 (total_scaled st')
      \<and> \<bar>dec_val (total_original st')\<bar> \<le> \<bar>dec_val (total_original st)\<bar> + \<bar>dec_val a\<bar>
      \<and> \<bar>dec_val (dust_total st')\<bar> \<le> \<bar>dec_val (dust_total st)\<bar> + \<bar>dec_val a\<bar>
      \<and> \<bar>dec_val (total_scaled st')\<bar> \<le> \<bar>dec_val (total_scaled st)\<bar> + \<bar>dec_val a\<bar> * 10 ^ d"
proof -
  from pr have len: "\<not> length row < 2" and amt: "Decimal_of_string (strip (row ! 1)) = Some a"
    by (auto simp: parse_row_def split: if_splits option.splits)
  have k': "int k \<le> 1000026" using k by simp
  from dec_add_acc [OF inv(1) pl b1 k'] obtain r1 where
    r1: "dec_add (total_original st) a = Inr r1" "acc_ok k r1"
      "dec_val r1 = dec_val (total_original st) + dec_val a" by blast
  have a1: "\<bar>dec_val r1\<bar> \<le> \<bar>dec_val (total_original st)\<bar> + \<bar>dec_val a\<bar>"
    unfolding r1(3) by (rule abs_triangle_ineq)
  have "(\<bar>dec_val (total_original st)\<bar> + (\<bar>dec_val a\<bar> + 0)) * 10 ^ k < 10 ^ 28"
    using b1 by simp
  then have bk: "\<bar>dec_val a\<bar> * 10 ^ k < 10 ^ 28"
    by (rule bound_part(2)) simp_all
  have bd: "\<bar>dec_val a\<bar> * 10 ^ d < 10 ^ 28"
    using b3 abs_ge_zero [of "dec_val (total_scaled st)"] by linarith
  from scale_amount_places [OF pl bk bd] obtain n where
    n: "scale_amount d a = Inr n" "\<bar>of_int n :: rat\<bar> \<le> \<bar>dec_val a\<bar> * 10 ^ d" by blast
  show ?thesis
  proof (cases "m \<le> n")
    case True
    have p0: "places_le 0 (Decimal_of_int n)" by (simp add: Decimal_of_int_def)
    have "(\<bar>dec_val (total_scaled st)\<bar> + \<bar>dec_val (Decimal_of_int n)\<bar>) * 10 ^ 0 < 10 ^ 28"
      using b3 n(2) unfolding dec_val_of_int by simp
    from dec_add_acc [OF inv(3) p0 this] obtain r3 where
      r3: "dec_add (total_scaled st) (Decimal_of_int n) = Inr r3" "acc_ok 0 r3"
        "dec_val r3 = dec_val (total_scaled st) + dec_val (Decimal_of_int n)" by auto
    have "\<bar>dec_val r3\<bar> \<le> \<bar>dec_val (total_scaled st)\<bar> + \<bar>of_int n\<bar>"
      unfolding r3(3) dec_val_of_int by (rule abs_triangle_ineq)
    with n(2) have a3: "\<bar>dec_val r3\<bar> \<le> \<bar>dec_val (total_scaled st)\<bar> + \<bar>dec_val a\<bar> * 10 ^ d"
      by linarith
    have "process_row d m st row
        = Inr (st\<lparr>total_original := r1, f_out := f_out st @ out_line (strip (row ! 0)) n,
                  total_scaled := r3, count := count st + 1\<rparr>)"
      using len amt r1(1) n(1) True r3(1) by (simp add: process_row_def Let_def)
    moreover have "0 \<le> \<bar>dec_val a\<bar>" by simp
    ultimately show ?thesis using r1(2) a1 r3(2) a3 inv(2) by simp
  next
    case False
    from dec_add_acc [OF inv(2) pl b2 k'] obtain r2 where
      r2: "dec_add (dust_total st) a = Inr r2" "acc_ok k r2"
        "dec_val r2 = dec_val (dust_total st) + dec_val a" by blast
    have a2: "\<bar>dec_val r2\<bar> \<le> \<bar>dec_val (dust_total st)\<bar> + \<bar>dec_val a\<bar>"
      unfolding r2(3) by (rule abs_triangle_ineq)
    have "process_row d m st row
        = Inr (st\<lparr>total_original := r1, dust_count := dust_count st + 1, dust_total := r2\<rparr>)"
      using len amt r1(1) n(1) False r2(1) by (simp add: process_row_def Let_def)
    moreover have "0 \<le> \<bar>dec_val a\<bar> * 10 ^ d" by simp
    ultimately show ?thesis using r1(2) a1 r2(2) a2 inv(3) by simp
  qed
qed

lemma process_rows_completes:
  assumes "\<forall>a\<in>set (valid_amounts rows). places_le k a"
    and "acc_ok k (total_original st)" "acc_ok k (dust_total st)" "acc_ok 0 (total_scaled st)"
    and "(\<bar>dec_val (total_original st)\<bar>
           + sum_list (map (\<lambda>a. \<bar>dec_val a\<bar>) (valid_amounts rows))) * 10 ^ k < 10 ^ 28"
    and "(\<bar>dec_val (dust_total st)\<bar>
           + sum_list (map (\<lambda>a. \<bar>dec_val a\<bar>) (valid_amounts rows))) * 10 ^ k < 10 ^ 28"
    and "(\<bar>dec_val (total_scaled st)\<bar> * inverse (10 ^ d)
           + sum_list (map (\<lambda>a. \<bar>dec_val a\<bar>) (valid_amounts rows))) * 10 ^ d < 10 ^ 28"
    and "k \<le> 28"
  shows "\<exists>st'. process_rows d m st rows = Inr st'"
  using assms
proof (induction rows arbitrary: st)
  case Nil
  show ?case by simp
next
  case (Cons row rows)
  let ?r = "sum_list (map (\<lambda>a. \<bar>dec_val a\<bar>) (valid_amounts rows))"
  have r0: "0 \<le> ?r" by (rule sum_list_nonneg) auto
  show ?case
  proof (cases "parse_row row")
    case None
    then have "process_row d m st row = Inr st"
      by (simp add: parse_row_None_iff process_row_invalid)
    moreover from None have "valid_amounts (row # rows) = valid_amounts rows"
      by (simp add: valid_amounts_Cons)
    ultimately show ?thesis using Cons.IH [of st] Cons.prems by simp
  next
    case (Some p)
    obtain addr a where p: "p = (addr, a)" by (cases p)
    with Some have pr: "parse_row row = Some (addr, a)" by simp
    then have va: "valid_amounts (row # rows) = a # valid_amounts rows"
      by (simp add: valid_amounts_Cons)
    from Cons.prems(1) have pl: "places_le k a" and pls: "\<forall>a\<in>set (valid_amounts rows). places_le k a"
      unfolding va by simp_all
    let ?ts = "\<bar>dec_val (total_scaled st)\<bar> * inverse (10 ^ d)"
    have t1: "(\<bar>dec_val (total_original st)\<bar> + (\<bar>dec_val a\<bar> + ?r)) * 10 ^ k < 10 ^ 28"
      and t2: "(\<bar>dec_val (dust_total st)\<bar> + (\<bar>dec_val a\<bar> + ?r)) * 10 ^ k < 10 ^ 28"
      and t3: "(?ts + (\<bar>dec_val a\<bar> + ?r)) * 10 ^ d < 10 ^ 28"
      using Cons.prems(5,6,7) unfolding va by simp_all
    have b1: "(\<bar>dec_val (total_original st)\<bar> + \<bar>dec_val a\<bar>) * 10 ^ k < 10 ^ 28"
      using t1 r0 by (rule bound_part(1)) simp_all
    have b2: "(\<bar>dec_val (dust_total st)\<bar> + \<bar>dec_val a\<bar>) * 10 ^ k < 10 ^ 28"
      using t2 r0 by (rule bound_part(1)) simp_all
    have ts: "?ts * 10 ^ d = \<bar>dec_val (total_scaled st)\<bar>" by simp
    have "(?ts + \<bar>dec_val a\<bar>) * 10 ^ d < 10 ^ 28"
      using t3 r0 by (rule bound_part(1)) simp_all
    then have b3: "\<bar>dec_val (total_scaled st)\<bar> + \<bar>dec_val a\<bar> * 10 ^ d < 10 ^ 28"
      unfolding distrib_right ts .
    from process_row_completes [OF pr pl Cons.prems(2,3,4) b1 b2 b3 Cons.prems(8)]
    obtain st1 where step: "process_row d m st row = Inr st1"
      and inv: "acc_ok k (total_original st1)" "acc_ok k (dust_total st1)" "acc_ok 0 (total_scaled st1)"
      and a1: "\<bar>dec_val (total_original st1)\<bar> \<le> \<bar>dec_val (total_original st)\<bar> + \<bar>dec_val a\<bar>"
      and a2: "\<bar>dec_val (dust_total st1)\<bar> \<le> \<bar>dec_val (dust_total st)\<bar> + \<bar>dec_val a\<bar>"
      and a3: "\<bar>dec_val (total_scaled st1)\<bar> \<le> \<bar>dec_val (total_scaled st)\<bar> + \<bar>dec_val a\<bar> * 10 ^ d"
      by blast
    have n1: "(\<bar>dec_val (total_original st1)\<bar> + ?r) * 10 ^ k < 10 ^ 28"
      using t1 a1 by (rule bound_next) simp
    have n2: "(\<bar>dec_val (dust_total st1)\<bar> + ?r) * 10 ^ k < 10 ^ 28"
      using t2 a2 by (rule bound_next) simp
    have "\<bar>dec_val (total_scaled st1)\<bar> * inverse (10 ^ d)
        \<le> (\<bar>dec_val (total_scaled st)\<bar> + \<bar>dec_val a\<bar> * 10 ^ d) * inverse (10 ^ d)"
      using a3 by (rule mult_right_mono) simp
    also have "\<dots> = ?ts + \<bar>dec_val a\<bar>" by (simp add: distrib_right)
    finally have "\<bar>dec_val (total_scaled st1)\<bar> * inverse (10 ^ d) \<le> ?ts + \<bar>dec_val a\<bar>" .
    with t3 have n3: "(\<bar>dec_val (total_scaled st1)\<bar> * inverse (10 ^ d) + ?r) * 10 ^ d < 10 ^ 28"
      by (rule bound_next) simp
    from Cons.IH [OF pls inv n1 n2 n3 Cons.prems(8)] obtain st' where
      "process_rows d m st1 rows = Inr st'" by blast
    with step show ?thesis by simp
  qed
qed

lemma prepare_csv_completes:
  assumes m: "min_scaled_of d (min_amount_of ma) = Inr m"
    and pl: "\<forall>a\<in>set (valid_amounts rows). places_le k a"
    and bk: "sum_list (map (\<lambda>a. \<bar>dec_val a\<bar>) (valid_amounts rows)) * 10 ^ k < 10 ^ 28"
    and bd: "sum_list (map (\<lambda>a. \<bar>dec_val a\<bar>) (valid_amounts rows)) * 10 ^ d < 10 ^ 28"
    and k: "k \<le> 28"
  shows "\<exists>st. prepare_csv (Some rows) d ma = Completed st"
proof -
  have "\<exists>st'. process_rows d m prep_init rows = Inr st'"
    by (rule process_rows_completes [OF pl _ _ _ _ _ _ k])
       (use bk bd in \<open>simp_all add: prep_init_def signed_def\<close>)
  then show ?thesis using m by (auto simp: prepare_csv_def)
qed

subsection \<open>The error of rounding to a number of places\<close>

lemma round_half_even_err:
  "2 * \<bar>int (round_half_even c k) * 10 ^ k - int c\<bar> \<le> 10 ^ k"
proof -
  define q where "q = c div 10 ^ k"
  define r where "r = c mod 10 ^ k"
  have c: "int c = int q * 10 ^ k + int r"
  proof -
    have "c = q * 10 ^ k + r" unfolding q_def r_def by (rule div_mult_mod_eq [symmetric])
    then have "int c = int (q * 10 ^ k + r)" by (simp only:)
    then show ?thesis by simp
  qed
  have r: "r < 10 ^ k" unfolding r_def by simp
  then have ri: "int r < 10 ^ k" by (simp flip: of_nat_power add: of_nat_less_iff del: of_nat_power)
  show ?thesis
  proof (cases "2 * r > 10 ^ k \<or> (2 * r = 10 ^ k \<and> odd q)")
    case True
    then have up: "round_half_even c k = q + 1"
      by (simp add: round_half_even_def Let_def q_def r_def)
    from True have "10 ^ k \<le> 2 * r" by auto
    then have "int (10 ^ k) \<le> int (2 * r)" by (simp only: of_nat_le_iff)
    then have "(10::int) ^ k \<le> 2 * int r" by simp
    moreover have "int (q + 1) * 10 ^ k - int c = 10 ^ k - int r"
      unfolding c by (simp add: algebra_simps)
    ultimately show ?thesis unfolding up using ri by simp
  next
    case False
    then have dn: "round_half_even c k = q"
      by (simp add: round_half_even_def Let_def q_def r_def)
    from False have "2 * r \<le> 10 ^ k" by auto
    then have "int (2 * r) \<le> int (10 ^ k)" by (simp only: of_nat_le_iff)
    then have "2 * int r \<le> (10::int) ^ k" by simp
    moreover have "int q * 10 ^ k - int c = - int r" unfolding c by simp
    ultimately show ?thesis unfolding dn by simp
  qed
qed

lemma signed_diff_abs: "\<bar>signed s a - signed s b\<bar> = \<bar>int a - int b\<bar>"
  by (auto simp: signed_def)

lemma rescale_err:
  "2 * \<bar>dec_val (rescale_half_even (- int p) (Finite s c e)) - dec_val (Finite s c e)\<bar>
     \<le> 10 powi (- int p)"
proof (cases "c = 0 \<or> - int p \<le> e")
  case True
  then have "dec_val (rescale_half_even (- int p) (Finite s c e)) = dec_val (Finite s c e)"
  proof
    assume "c = 0" then show ?thesis by (simp add: signed_def)
  next
    assume "- int p \<le> e" then show ?thesis by (rule rescale_exact)
  qed
  then show ?thesis by (simp add: zero_le_power_int)
next
  case False
  then have c: "c \<noteq> 0" and e: "e < - int p" by simp_all
  define k where "k = nat (- int p - e)"
  have pe: "(10::rat) ^ k * 10 powi e = 10 powi (- int p)"
    unfolding k_def using e by (intro pow_shift) simp
  have pos: "(0::rat) < 10 powi e" by (simp add: zero_less_power_int)
  have rs: "rescale_half_even (- int p) (Finite s c e) = Finite s (round_half_even c k) (- int p)"
    using c e by (simp add: k_def)
  have "dec_val (Finite s (round_half_even c k) (- int p)) - dec_val (Finite s c e)
      = of_int (signed s (round_half_even c k)) * (10 ^ k * 10 powi e)
        - of_int (signed s c) * 10 powi e"
    by (simp only: dec_val.simps pe)
  also have "\<dots> = of_int (signed s (round_half_even c k) * 10 ^ k - signed s c) * 10 powi e"
    by (simp add: algebra_simps)
  finally have "\<bar>dec_val (Finite s (round_half_even c k) (- int p)) - dec_val (Finite s c e)\<bar>
      = of_int \<bar>signed s (round_half_even c k) * 10 ^ k - signed s c\<bar> * 10 powi e"
    using pos by (simp add: abs_mult)
  also have "signed s (round_half_even c k) * 10 ^ k = signed s (round_half_even c k * 10 ^ k)"
    by (simp add: signed_mult)
  also have "\<bar>signed s (round_half_even c k * 10 ^ k) - signed s c\<bar>
      = \<bar>int (round_half_even c k) * 10 ^ k - int c\<bar>"
    by (simp add: signed_diff_abs)
  finally have eq: "\<bar>dec_val (Finite s (round_half_even c k) (- int p)) - dec_val (Finite s c e)\<bar>
      = of_int \<bar>int (round_half_even c k) * 10 ^ k - int c\<bar> * 10 powi e" .
  have "(of_int (2 * \<bar>int (round_half_even c k) * 10 ^ k - int c\<bar>) :: rat) \<le> of_int (10 ^ k)"
    using round_half_even_err [of c k] by (simp only: of_int_le_iff)
  then have "2 * (of_int \<bar>int (round_half_even c k) * 10 ^ k - int c\<bar> :: rat) \<le> 10 ^ k"
    by simp
  then have "2 * (of_int \<bar>int (round_half_even c k) * 10 ^ k - int c\<bar> :: rat) * 10 powi e
      \<le> 10 ^ k * 10 powi e"
    by (rule mult_right_mono) (use pos in simp)
  then show ?thesis unfolding rs eq pe by (simp only: mult.assoc)
qed


lemma rescale_err_any:
  "2 * \<bar>dec_val (rescale_half_even (- int p) x) - dec_val x\<bar> \<le> 10 powi (- int p)"
proof (cases x)
  case (Finite s c e)
  show ?thesis unfolding Finite by (rule rescale_err)
qed (simp_all add: zero_le_power_int)

lemma rescale_err_10:
  "2 * \<bar>dec_val (rescale_half_even (- 10) x) - dec_val x\<bar> \<le> 1 / 10 ^ 10"
proof -
  have "(10::rat) powi (- int 10) = inverse (10 powi int 10)" by (rule power_int_minus)
  also have "\<dots> = 1 / 10 ^ 10" by (simp only: power_int_of_nat inverse_eq_divide)
  finally have e: "(10::rat) powi (- int 10) = 1 / 10 ^ 10" .
  have i: "- int 10 = - 10" by simp
  from rescale_err_any [of 10 x] show ?thesis unfolding e unfolding i .
qed

subsection \<open>Skipped rows, counts and the output file\<close>

lemma length_kept_dust:
  "length (kept_rows d m rows) + length (dust_rows d m rows) = length (scaled_rows d rows)"
proof -
  have "dust_rows d m rows
      = filter (\<lambda>r. \<not> (case r of (addr, amount, amount_int) \<Rightarrow> m \<le> amount_int)) (scaled_rows d rows)"
    unfolding dust_rows_def by (rule filter_cong) auto
  then show ?thesis
    unfolding kept_rows_def by (simp add: sum_length_filter_compl)
qed

text \<open>
  C6. When \<^verbatim>\<open>prepare_csv\<close> completes, the recipient count and the dust count that it
  prints add up to the number of syntactically valid rows of the input: the rows of at
  least two fields whose amount parses as a Decimal.
\<close>

theorem counts_cover_valid_rows:
  assumes "prepare_csv (Some rows) d ma = Completed st"
  shows "count st + dust_count st = length (filter valid_row rows)"
proof -
  from assms obtain m where "process_rows d m prep_init rows = Inr st"
    by (auto simp: prepare_csv_Completed)
  from process_rows_Inr [OF this] show ?thesis
    using length_kept_dust [of d m rows] by (simp add: prep_init_def)
qed

theorem counts_cover_valid_rows_witness:
  "prepare_csv (Some [[''0xA'', ''1.5''], [''0xB'', ''0.0000012''], [], [''x''],
      [''0xC'', ''abc''], [''0xD'', '' 2 '']]) 18 None
   = Completed \<lparr>total_scaled = Finite False 3500000000000000000 0,
        total_original = Finite False 35000012 (- 7), count = 2, dust_count = 1,
        dust_total = Finite False 12 (- 7),
        f_out = ''0xA,1500000000000000000'' @ [CHR 0x0A]
                @ ''0xD,2000000000000000000'' @ [CHR 0x0A]\<rparr>
   \<and> length (filter valid_row [[''0xA'', ''1.5''], [''0xB'', ''0.0000012''], [], [''x''],
      [''0xC'', ''abc''], [''0xD'', '' 2 '']]) = 2 + 1"
  using counts_cover_valid_rows [OF run_example] run_example by simp

text \<open>
  C7. A row of fewer than two fields, or whose amount does not parse as a Decimal, leaves
  every accumulator and the output file as they are, and the run as a whole, whether it
  completes or raises, is the run on the input without that row.
\<close>

theorem invalid_rows_skipped:
  "(valid_row row \<longleftrightarrow> 2 \<le> length row \<and> Decimal_of_string (strip (row ! 1)) \<noteq> None)
   \<and> (\<not> valid_row row \<longrightarrow>
        process_row d m st row = Inr st
        \<and> process_rows d m st (rows1 @ row # rows2) = process_rows d m st (rows1 @ rows2)
        \<and> prepare_csv (Some (rows1 @ row # rows2)) d ma = prepare_csv (Some (rows1 @ rows2)) d ma)"
proof -
  have eq: "process_rows d m' st' (rows1 @ row # rows2) = process_rows d m' st' (rows1 @ rows2)"
    if "\<not> valid_row row" for m' st'
    using that process_rows_filter_valid [of d m' st' "rows1 @ row # rows2"]
      process_rows_filter_valid [of d m' st' "rows1 @ rows2"] by simp
  have "prepare_csv (Some (rows1 @ row # rows2)) d ma = prepare_csv (Some (rows1 @ rows2)) d ma"
    if "\<not> valid_row row"
    unfolding prepare_csv_def by (simp add: eq [OF that] split: sum.split)
  with eq show ?thesis by (auto simp: valid_row_def process_row_invalid)
qed

theorem invalid_rows_skipped_witness:
  "\<not> valid_row [''x''] \<and> \<not> valid_row [''0xC'', ''abc'']
   \<and> process_row 18 10000000000000 prep_init [''0xC'', ''abc''] = Inr prep_init
   \<and> prepare_csv (Some ([[''0xA'', ''1.5'']] @ [''0xC'', ''abc''] # [[''0xD'', '' 2 '']])) 18 None
       = prepare_csv (Some ([[''0xA'', ''1.5'']] @ [[''0xD'', '' 2 '']])) 18 None
   \<and> prepare_csv (Some ([] @ [''x''] # [[''0xD'', '' 2 '']])) 18 None
       = prepare_csv (Some ([] @ [[''0xD'', '' 2 '']])) 18 None"
proof -
  have a: "\<not> valid_row [''x'']" by (simp add: valid_row_def)
  have b: "\<not> valid_row [''0xC'', ''abc'']" by (simp add: valid_row_def str_eval dec_eval)
  show ?thesis
    using a b
      invalid_rows_skipped [of "[''0xC'', ''abc'']" 18 10000000000000 prep_init
        "[[''0xA'', ''1.5'']]" "[[''0xD'', '' 2 '']]" None]
      invalid_rows_skipped [of "[''x'']" 18 10000000000000 prep_init
        "[]" "[[''0xD'', '' 2 '']]" None]
    by blast
qed

text \<open>
  C9, amended. The output file of a completed run is the concatenation, in the order of
  the input, of one record \<^verbatim>\<open>address,scaledAmount\<close> followed by a line feed for each
  kept row, and nothing else; a run that raises leaves the records of an initial segment
  of the kept rows. The run completes when every valid amount has at most \<open>k \<le> 28\<close>
  decimal places and the absolute amounts add up to less than \<open>10^(28 - k)\<close> and less
  than \<open>10^(28 - d)\<close>. Each record is one line, and the lines of the output are exactly
  the records of the kept rows, when no kept address contains a line feed.
\<close>

theorem output_is_kept_rows_in_order:
  assumes "min_scaled_of d (min_amount_of ma) = Inr m"
  shows "(prepare_csv (Some rows) d ma = Completed st \<longrightarrow>
            f_out st = concat (map written_line (kept_rows d m rows)))
       \<and> (prepare_csv (Some rows) d ma = Failed err (Some written) \<longrightarrow>
            (\<exists>ks. prefix ks (kept_rows d m rows) \<and> written = concat (map written_line ks)))
       \<and> kept_rows d m rows
            = filter (\<lambda>r. m \<le> row_scaled r) (List.map_filter (scaled_row d) rows)
       \<and> written_line (addr, a, n) = addr @ '','' @ str_of_int n @ [CHR 0x0A]
       \<and> ((\<forall>x\<in>set (valid_amounts rows). places_le k x)
            \<and> sum_list (map (\<lambda>x. \<bar>dec_val x\<bar>) (valid_amounts rows)) * 10 ^ k < 10 ^ 28
            \<and> sum_list (map (\<lambda>x. \<bar>dec_val x\<bar>) (valid_amounts rows)) * 10 ^ d < 10 ^ 28
            \<and> k \<le> 28
           \<longrightarrow> (\<exists>st'. prepare_csv (Some rows) d ma = Completed st'
                  \<and> f_out st' = concat (map written_line (kept_rows d m rows))))
       \<and> (prepare_csv (Some rows) d ma = Completed st
            \<and> (\<forall>r\<in>set (kept_rows d m rows). CHR 0x0A \<notin> set (row_addr r))
           \<longrightarrow> split_nl (f_out st) = map record_of (kept_rows d m rows) @ [[]])
       \<and> record_of (addr, a, n) = addr @ '','' @ str_of_int n"
proof -
  have compl: "f_out st = concat (map written_line (kept_rows d m rows))"
    if "prepare_csv (Some rows) d ma = Completed st" for st
  proof -
    from that assms have "process_rows d m prep_init rows = Inr st"
      by (auto simp: prepare_csv_Completed)
    from process_rows_Inr [OF this] show ?thesis by (simp add: prep_init_def)
  qed
  have fails: "\<exists>ks. prefix ks (kept_rows d m rows) \<and> written = concat (map written_line ks)"
    if "prepare_csv (Some rows) d ma = Failed err (Some written)"
  proof -
    from that assms have "process_rows d m prep_init rows = Inl (err, written)"
      by (auto simp: prepare_csv_Failed_written)
    from process_rows_Inl [OF this] show ?thesis by (simp add: prep_init_def)
  qed
  have kept: "kept_rows d m rows
      = filter (\<lambda>r. m \<le> row_scaled r) (List.map_filter (scaled_row d) rows)"
    unfolding kept_rows_def scaled_rows_def by (rule filter_cong) (auto simp: row_scaled_def)
  have line: "written_line (addr, a, n) = addr @ '','' @ str_of_int n @ [CHR 0x0A]"
    by (simp add: written_line_def out_line_def row_addr_def row_scaled_def)
  have ends: "\<exists>st'. prepare_csv (Some rows) d ma = Completed st'
      \<and> f_out st' = concat (map written_line (kept_rows d m rows))"
    if "\<forall>x\<in>set (valid_amounts rows). places_le k x"
      and "sum_list (map (\<lambda>x. \<bar>dec_val x\<bar>) (valid_amounts rows)) * 10 ^ k < 10 ^ 28"
      and "sum_list (map (\<lambda>x. \<bar>dec_val x\<bar>) (valid_amounts rows)) * 10 ^ d < 10 ^ 28"
      and "k \<le> 28"
  proof -
    from prepare_csv_completes [OF assms that] obtain st' where
      "prepare_csv (Some rows) d ma = Completed st'" by blast
    with compl [of st'] show ?thesis by blast
  qed
  have lines: "split_nl (f_out st) = map record_of (kept_rows d m rows) @ [[]]"
    if "prepare_csv (Some rows) d ma = Completed st"
      and "\<forall>r\<in>set (kept_rows d m rows). CHR 0x0A \<notin> set (row_addr r)"
    unfolding compl [OF that(1)] using that(2) by (rule split_nl_records)
  have rec: "record_of (addr, a, n) = addr @ '','' @ str_of_int n"
    by (simp add: record_of_def row_addr_def row_scaled_def)
  from compl [of st] fails kept line ends lines rec show ?thesis by blast
qed

lemma run_example_amounts:
  "valid_amounts [[''0xA'', ''1.5''], [''0xB'', ''0.0000012''], [], [''x''],
      [''0xC'', ''abc''], [''0xD'', '' 2 '']]
   = [Finite False 15 (- 1), Finite False 12 (- 7), Finite False 2 0]"
  by (simp add: valid_amounts_def parse_row_def str_eval dec_eval)

lemma run_example_kept:
  "kept_rows 18 10000000000000 [[''0xA'', ''1.5''], [''0xB'', ''0.0000012''], [], [''x''],
      [''0xC'', ''abc''], [''0xD'', '' 2 '']]
   = [(''0xA'', Finite False 15 (- 1), 1500000000000000000),
      (''0xD'', Finite False 2 0, 2000000000000000000)]"
  by (simp add: kept_rows_def run_example_scaled)

theorem output_is_kept_rows_in_order_witness:
  "min_scaled_of 18 (min_amount_of None) = Inr 10000000000000
   \<and> prepare_csv (Some [[''0xA'', ''1.5''], [''0xB'', ''0.0000012''], [], [''x''],
        [''0xC'', ''abc''], [''0xD'', '' 2 '']]) 18 None
      = Completed \<lparr>total_scaled = Finite False 3500000000000000000 0,
          total_original = Finite False 35000012 (- 7), count = 2, dust_count = 1,
          dust_total = Finite False 12 (- 7),
          f_out = ''0xA,1500000000000000000'' @ [CHR 0x0A]
                  @ ''0xD,2000000000000000000'' @ [CHR 0x0A]\<rparr>
   \<and> kept_rows 18 10000000000000 [[''0xA'', ''1.5''], [''0xB'', ''0.0000012''], [], [''x''],
        [''0xC'', ''abc''], [''0xD'', '' 2 '']]
      = [(''0xA'', Finite False 15 (- 1), 1500000000000000000),
         (''0xD'', Finite False 2 0, 2000000000000000000)]
   \<and> concat (map written_line (kept_rows 18 10000000000000 [[''0xA'', ''1.5''],
        [''0xB'', ''0.0000012''], [], [''x''], [''0xC'', ''abc''], [''0xD'', '' 2 '']]))
      = ''0xA,1500000000000000000'' @ [CHR 0x0A] @ ''0xD,2000000000000000000'' @ [CHR 0x0A]
   \<and> (\<exists>st'. prepare_csv (Some [[''0xA'', ''1.5''], [''0xB'', ''0.0000012''], [], [''x''],
              [''0xC'', ''abc''], [''0xD'', '' 2 '']]) 18 None = Completed st'
          \<and> f_out st' = ''0xA,1500000000000000000'' @ [CHR 0x0A]
                @ ''0xD,2000000000000000000'' @ [CHR 0x0A]
          \<and> split_nl (f_out st')
              = [''0xA,1500000000000000000'', ''0xD,2000000000000000000'', []])
   \<and> prepare_csv (Some [[''0xA'', ''1.5''], [''0xB'', ''nan''], [''0xC'', ''2'']]) 18 None
      = Failed ValueError (Some (''0xA,1500000000000000000'' @ [CHR 0x0A]))
   \<and> (\<exists>ks. prefix ks (kept_rows 18 10000000000000
            [[''0xA'', ''1.5''], [''0xB'', ''nan''], [''0xC'', ''2'']])
          \<and> ''0xA,1500000000000000000'' @ [CHR 0x0A] = concat (map written_line ks))"
proof -
  let ?rows = "[[''0xA'', ''1.5''], [''0xB'', ''0.0000012''], [], [''x''],
        [''0xC'', ''abc''], [''0xD'', '' 2 '']]"
  let ?st = "\<lparr>total_scaled = Finite False 3500000000000000000 0,
        total_original = Finite False 35000012 (- 7), count = 2, dust_count = 1,
        dust_total = Finite False 12 (- 7),
        f_out = ''0xA,1500000000000000000'' @ [CHR 0x0A]
                @ ''0xD,2000000000000000000'' @ [CHR 0x0A]\<rparr>"
  note thm1 = output_is_kept_rows_in_order [OF min_scaled_default_18,
      where rows = ?rows and st = ?st and k = 7]
  note thm2 = output_is_kept_rows_in_order [OF min_scaled_default_18,
      where rows = "[[''0xA'', ''1.5''], [''0xB'', ''nan''], [''0xC'', ''2'']]"
      and err = ValueError and written = "''0xA,1500000000000000000'' @ [CHR 0x0A]"]
  have h: "(\<forall>x\<in>set (valid_amounts ?rows). places_le 7 x)
      \<and> sum_list (map (\<lambda>x. \<bar>dec_val x\<bar>) (valid_amounts ?rows)) * 10 ^ 7 < 10 ^ 28
      \<and> sum_list (map (\<lambda>x. \<bar>dec_val x\<bar>) (valid_amounts ?rows)) * 10 ^ 18 < 10 ^ 28
      \<and> (7::nat) \<le> 28"
    unfolding run_example_amounts by (simp add: signed_def)
  have nl: "\<forall>r\<in>set (kept_rows 18 10000000000000 ?rows). CHR 0x0A \<notin> set (row_addr r)"
    unfolding run_example_kept by (simp add: row_addr_def)
  from thm1 run_example
  have out: "f_out ?st = concat (map written_line (kept_rows 18 10000000000000 ?rows))"
    by blast
  then have cc: "concat (map written_line (kept_rows 18 10000000000000 ?rows))
      = ''0xA,1500000000000000000'' @ [CHR 0x0A] @ ''0xD,2000000000000000000'' @ [CHR 0x0A]"
    by simp
  from thm1 run_example nl
  have "split_nl (f_out ?st) = map record_of (kept_rows 18 10000000000000 ?rows) @ [[]]"
    by blast
  then have sp: "split_nl (f_out ?st)
      = [''0xA,1500000000000000000'', ''0xD,2000000000000000000'', []]"
    unfolding run_example_kept
    by (simp add: record_of_def row_addr_def row_scaled_def str_eval)
  from thm1 h obtain st' where
    e: "prepare_csv (Some ?rows) 18 None = Completed st'"
      "f_out st' = concat (map written_line (kept_rows 18 10000000000000 ?rows))"
    by blast
  from e(1) run_example have "st' = ?st" by simp
  with e sp cc have ex: "\<exists>st'. prepare_csv (Some ?rows) 18 None = Completed st'
      \<and> f_out st' = ''0xA,1500000000000000000'' @ [CHR 0x0A]
            @ ''0xD,2000000000000000000'' @ [CHR 0x0A]
      \<and> split_nl (f_out st') = [''0xA,1500000000000000000'', ''0xD,2000000000000000000'', []]"
    by auto
  from thm2 run_nan
  have "\<exists>ks. prefix ks (kept_rows 18 10000000000000
            [[''0xA'', ''1.5''], [''0xB'', ''nan''], [''0xC'', ''2'']])
          \<and> ''0xA,1500000000000000000'' @ [CHR 0x0A] = concat (map written_line ks)"
    by blast
  with ex cc show ?thesis
    using run_example_kept min_scaled_default_18 run_example run_nan by blast
qed

text \<open>
  C9 as stated fails: a record is not always a single line. An address field with a
  line break inside quotes reaches the loop with the line feed in it, \<^verbatim>\<open>strip\<close> removes
  white space at the two ends only, and the one kept row is written as two lines.
\<close>

theorem output_line_break_counterexample:
  "prepare_csv (Some [[''x'' @ [CHR 0x0A] @ ''y'', ''5'']]) 18 None
   = Completed \<lparr>total_scaled = Finite False 5000000000000000000 0,
        total_original = Finite False 5 0, count = 1, dust_count = 0,
        dust_total = Finite False 0 0,
        f_out = ''x'' @ [CHR 0x0A] @ ''y,5000000000000000000'' @ [CHR 0x0A]\<rparr>
   \<and> kept_rows 18 10000000000000 [[''x'' @ [CHR 0x0A] @ ''y'', ''5'']]
      = [(''x'' @ [CHR 0x0A] @ ''y'', Finite False 5 0, 5000000000000000000)]
   \<and> split_nl (''x'' @ [CHR 0x0A] @ ''y,5000000000000000000'' @ [CHR 0x0A])
      = [''x'', ''y,5000000000000000000'', []]"
proof -
  have a: "prepare_csv (Some [[''x'' @ [CHR 0x0A] @ ''y'', ''5'']]) 18 None
   = Completed \<lparr>total_scaled = Finite False 5000000000000000000 0,
        total_original = Finite False 5 0, count = 1, dust_count = 0,
        dust_total = Finite False 0 0,
        f_out = ''x'' @ [CHR 0x0A] @ ''y,5000000000000000000'' @ [CHR 0x0A]\<rparr>"
    by (simp add: str_eval dec_eval csv_eval)
  have b: "kept_rows 18 10000000000000 [[''x'' @ [CHR 0x0A] @ ''y'', ''5'']]
      = [(''x'' @ [CHR 0x0A] @ ''y'', Finite False 5 0, 5000000000000000000)]"
    by (simp add: row_eval str_eval dec_eval)
  have c: "split_nl (''x'' @ [CHR 0x0A] @ ''y,5000000000000000000'' @ [CHR 0x0A])
      = [''x'', ''y,5000000000000000000'', []]"
    by simp
  from a b c show ?thesis by blast
qed

subsection \<open>The dust total and the original total\<close>

text \<open>
  C3, amended. On every run, whether it completes or raises, the output file holds
  records of kept rows only, so no row whose scaled amount is below \<open>min_scaled\<close> is
  written. When the run completes, the dust count is the number of those rows, the dust
  total is the sum of their original amounts as the Decimal context computes it, from
  left to right at 28 significant digits, and what is printed is that total rounded
  half-even to 10 decimal places. When every dust amount has at most \<open>k \<le> 28\<close> decimal
  places and the absolute amounts add up to less than \<open>10^(28 - k)\<close>, the dust total is
  the exact sum and the printed number is within half a unit of the tenth decimal place
  of it; with \<open>k \<le> 10\<close> the printed number is the exact sum. The run completes when the
  same holds of all valid amounts and their absolute values add up to less than
  \<open>10^(28 - d)\<close>.
\<close>

theorem dust_rows_excluded:
  assumes m: "min_scaled_of d (min_amount_of ma) = Inr m"
  shows "(\<exists>ks. prefix ks (kept_rows d m rows)
            \<and> written_text (prepare_csv (Some rows) d ma) = concat (map written_line ks))
     \<and> dust_rows d m rows = filter (\<lambda>r. row_scaled r < m) (scaled_rows d rows)
     \<and> (\<forall>r\<in>set (dust_rows d m rows). r \<notin> set (kept_rows d m rows))
     \<and> (prepare_csv (Some rows) d ma = Completed st \<longrightarrow>
          f_out st = concat (map written_line (kept_rows d m rows))
          \<and> dust_count st = length (dust_rows d m rows)
          \<and> dec_sum (map row_amount (dust_rows d m rows)) = Inr (dust_total st)
          \<and> printed_dust_total st = render_f 10 (rescale_half_even (- 10) (dust_total st))
          \<and> ((\<forall>r\<in>set (dust_rows d m rows). places_le k (row_amount r))
               \<and> sum_list (map (\<lambda>r. \<bar>dec_val (row_amount r)\<bar>) (dust_rows d m rows)) * 10 ^ k
                   < 10 ^ 28
               \<and> k \<le> 28
              \<longrightarrow> dec_val (dust_total st)
                    = sum_list (map (\<lambda>r. dec_val (row_amount r)) (dust_rows d m rows))
                  \<and> 2 * \<bar>dec_val (rescale_half_even (- 10) (dust_total st))
                          - sum_list (map (\<lambda>r. dec_val (row_amount r)) (dust_rows d m rows))\<bar>
                      \<le> 1 / 10 ^ 10
                  \<and> (k \<le> 10 \<longrightarrow> dec_val (rescale_half_even (- 10) (dust_total st))
                    = sum_list (map (\<lambda>r. dec_val (row_amount r)) (dust_rows d m rows)))))
     \<and> ((\<forall>x\<in>set (valid_amounts rows). places_le k x)
          \<and> sum_list (map (\<lambda>x. \<bar>dec_val x\<bar>) (valid_amounts rows)) * 10 ^ k < 10 ^ 28
          \<and> sum_list (map (\<lambda>x. \<bar>dec_val x\<bar>) (valid_amounts rows)) * 10 ^ d < 10 ^ 28
          \<and> k \<le> 28
         \<longrightarrow> (\<exists>st'. prepare_csv (Some rows) d ma = Completed st'))"
proof -
  let ?sum = "sum_list (map (\<lambda>r. dec_val (row_amount r)) (dust_rows d m rows))"
  have 1: "\<exists>ks. prefix ks (kept_rows d m rows)
      \<and> written_text (prepare_csv (Some rows) d ma) = concat (map written_line ks)"
  proof (cases "process_rows d m prep_init rows")
    case (Inl p)
    obtain err written where p: "p = (err, written)" by (cases p)
    from process_rows_Inl [OF Inl [unfolded p]] obtain ks where
      "prefix ks (kept_rows d m rows)" "written = concat (map written_line ks)"
      by (auto simp: prep_init_def)
    moreover have "prepare_csv (Some rows) d ma = Failed err (Some written)"
      using m Inl p by (simp add: prepare_csv_def)
    ultimately show ?thesis by auto
  next
    case (Inr st')
    from process_rows_Inr [OF Inr] have "f_out st' = concat (map written_line (kept_rows d m rows))"
      by (simp add: prep_init_def)
    moreover have "prepare_csv (Some rows) d ma = Completed st'"
      using m Inr by (simp add: prepare_csv_def)
    ultimately have "prefix (kept_rows d m rows) (kept_rows d m rows)
      \<and> written_text (prepare_csv (Some rows) d ma)
          = concat (map written_line (kept_rows d m rows))"
      by simp
    then show ?thesis by blast
  qed
  have 2: "dust_rows d m rows = filter (\<lambda>r. row_scaled r < m) (scaled_rows d rows)"
    unfolding dust_rows_def by (rule filter_cong) (auto simp: row_scaled_def)
  have 3: "\<forall>r\<in>set (dust_rows d m rows). r \<notin> set (kept_rows d m rows)"
    by (auto simp: dust_rows_def kept_rows_def)
  have 4: "f_out st = concat (map written_line (kept_rows d m rows))
      \<and> dust_count st = length (dust_rows d m rows)
      \<and> dec_sum (map row_amount (dust_rows d m rows)) = Inr (dust_total st)
      \<and> printed_dust_total st = render_f 10 (rescale_half_even (- 10) (dust_total st))
      \<and> ((\<forall>r\<in>set (dust_rows d m rows). places_le k (row_amount r))
           \<and> sum_list (map (\<lambda>r. \<bar>dec_val (row_amount r)\<bar>) (dust_rows d m rows)) * 10 ^ k
               < 10 ^ 28
           \<and> k \<le> 28
          \<longrightarrow> dec_val (dust_total st) = ?sum
              \<and> 2 * \<bar>dec_val (rescale_half_even (- 10) (dust_total st)) - ?sum\<bar> \<le> 1 / 10 ^ 10
              \<and> (k \<le> 10 \<longrightarrow> dec_val (rescale_half_even (- 10) (dust_total st)) = ?sum))"
    if run: "prepare_csv (Some rows) d ma = Completed st"
  proof -
    from run m have pr: "process_rows d m prep_init rows = Inr st"
      by (auto simp: prepare_csv_Completed)
    note inv = process_rows_Inr [OF pr]
    have a: "f_out st = concat (map written_line (kept_rows d m rows))"
      using inv by (simp add: prep_init_def)
    have b: "dust_count st = length (dust_rows d m rows)"
      using inv by (simp add: prep_init_def)
    have c: "dec_sum (map row_amount (dust_rows d m rows)) = Inr (dust_total st)"
      using inv by (simp add: prep_init_def dec_sum_def)
    have d: "printed_dust_total st = render_f 10 (rescale_half_even (- 10) (dust_total st))"
      by (simp add: printed_dust_total_def format_f_def)
    have e: "dec_val (dust_total st) = ?sum
        \<and> 2 * \<bar>dec_val (rescale_half_even (- 10) (dust_total st)) - ?sum\<bar> \<le> 1 / 10 ^ 10
        \<and> (k \<le> 10 \<longrightarrow> dec_val (rescale_half_even (- 10) (dust_total st)) = ?sum)"
      if pl: "\<forall>r\<in>set (dust_rows d m rows). places_le k (row_amount r)"
        and bd: "sum_list (map (\<lambda>r. \<bar>dec_val (row_amount r)\<bar>) (dust_rows d m rows)) * 10 ^ k
                  < 10 ^ 28"
        and k: "k \<le> 28"
    proof -
      from dust_total_exact [OF pr pl bd k] have v: "dec_val (dust_total st) = ?sum"
        and p: "\<And>p. k \<le> p \<Longrightarrow>
          dec_val (rescale_half_even (- int p) (dust_total st)) = dec_val (dust_total st)"
        by blast+
      from rescale_err_10 [of "dust_total st"]
      have "2 * \<bar>dec_val (rescale_half_even (- 10) (dust_total st)) - ?sum\<bar> \<le> 1 / 10 ^ 10"
        unfolding v .
      with p [of 10] v show ?thesis by simp
    qed
    from a b c d e show ?thesis by blast
  qed
  have 5: "\<exists>st'. prepare_csv (Some rows) d ma = Completed st'"
    if "\<forall>x\<in>set (valid_amounts rows). places_le k x"
      and "sum_list (map (\<lambda>x. \<bar>dec_val x\<bar>) (valid_amounts rows)) * 10 ^ k < 10 ^ 28"
      and "sum_list (map (\<lambda>x. \<bar>dec_val x\<bar>) (valid_amounts rows)) * 10 ^ d < 10 ^ 28"
      and "k \<le> 28"
    using m that by (rule prepare_csv_completes)
  from 1 2 3 4 5 show ?thesis by blast
qed

lemma run_example_dust:
  "dust_rows 18 10000000000000 [[''0xA'', ''1.5''], [''0xB'', ''0.0000012''], [], [''x''],
      [''0xC'', ''abc''], [''0xD'', '' 2 '']]
   = [(''0xB'', Finite False 12 (- 7), 1200000000000)]"
  by (simp add: dust_rows_def run_example_scaled)

lemma run_example_all_amounts:
  "valid_amounts [[''0xA'', ''1.5''], [''0xB'', ''0.0000012''], [], [''x''],
      [''0xC'', ''abc''], [''0xD'', '' 2 '']]
   = [Finite False 15 (- 1), Finite False 12 (- 7), Finite False 2 0]"
  by (simp add: valid_amounts_def parse_row_def str_eval dec_eval)

theorem dust_rows_excluded_witness:
  "prepare_csv (Some [[''0xA'', ''1.5''], [''0xB'', ''0.0000012''], [], [''x''],
      [''0xC'', ''abc''], [''0xD'', '' 2 '']]) 18 None
   = Completed \<lparr>total_scaled = Finite False 3500000000000000000 0,
        total_original = Finite False 35000012 (- 7), count = 2, dust_count = 1,
        dust_total = Finite False 12 (- 7),
        f_out = ''0xA,1500000000000000000'' @ [CHR 0x0A]
                @ ''0xD,2000000000000000000'' @ [CHR 0x0A]\<rparr>
   \<and> min_scaled_of 18 (min_amount_of None) = Inr 10000000000000
   \<and> (\<exists>ks. prefix ks (kept_rows 18 10000000000000 [[''0xA'', ''1.5''],
            [''0xB'', ''0.0000012''], [], [''x''], [''0xC'', ''abc''], [''0xD'', '' 2 '']])
          \<and> written_text (prepare_csv (Some [[''0xA'', ''1.5''], [''0xB'', ''0.0000012''], [],
               [''x''], [''0xC'', ''abc''], [''0xD'', '' 2 '']]) 18 None)
             = concat (map written_line ks))
   \<and> written_text (prepare_csv (Some [[''0xA'', ''1.5''], [''0xB'', ''0.0000012''], [],
               [''x''], [''0xC'', ''abc''], [''0xD'', '' 2 '']]) 18 None)
      = ''0xA,1500000000000000000'' @ [CHR 0x0A] @ ''0xD,2000000000000000000'' @ [CHR 0x0A]
   \<and> dust_rows 18 10000000000000 [[''0xA'', ''1.5''], [''0xB'', ''0.0000012''], [], [''x''],
        [''0xC'', ''abc''], [''0xD'', '' 2 '']]
      = [(''0xB'', Finite False 12 (- 7), 1200000000000)]
   \<and> places_le 7 (Finite False 12 (- 7))
   \<and> \<bar>dec_val (Finite False 12 (- 7))\<bar> * 10 ^ 7 < 10 ^ 28
   \<and> dec_val (rescale_half_even (- 10) (Finite False 12 (- 7))) = 12 / 10 ^ 7
   \<and> printed_dust_total \<lparr>total_scaled = Finite False 3500000000000000000 0,
        total_original = Finite False 35000012 (- 7), count = 2, dust_count = 1,
        dust_total = Finite False 12 (- 7),
        f_out = ''0xA,1500000000000000000'' @ [CHR 0x0A]
                @ ''0xD,2000000000000000000'' @ [CHR 0x0A]\<rparr> = ''0.0000012000''
   \<and> (\<exists>st'. prepare_csv (Some [[''0xA'', ''1.5''], [''0xB'', ''0.0000012''], [], [''x''],
              [''0xC'', ''abc''], [''0xD'', '' 2 '']]) 18 None = Completed st')"
proof -
  let ?rows = "[[''0xA'', ''1.5''], [''0xB'', ''0.0000012''], [], [''x''],
        [''0xC'', ''abc''], [''0xD'', '' 2 '']]"
  let ?st = "\<lparr>total_scaled = Finite False 3500000000000000000 0,
        total_original = Finite False 35000012 (- 7), count = 2, dust_count = 1,
        dust_total = Finite False 12 (- 7),
        f_out = ''0xA,1500000000000000000'' @ [CHR 0x0A]
                @ ''0xD,2000000000000000000'' @ [CHR 0x0A]\<rparr>"
  note t = dust_rows_excluded [OF min_scaled_default_18, where rows = ?rows and st = ?st and k = 7]
  have h: "(\<forall>r\<in>set (dust_rows 18 10000000000000 ?rows). places_le 7 (row_amount r))
      \<and> sum_list (map (\<lambda>r. \<bar>dec_val (row_amount r)\<bar>) (dust_rows 18 10000000000000 ?rows))
          * 10 ^ 7 < 10 ^ 28
      \<and> (7::nat) \<le> 28"
    unfolding run_example_dust by (simp add: row_amount_def signed_def)
  have g: "(\<forall>x\<in>set (valid_amounts ?rows). places_le 7 x)
      \<and> sum_list (map (\<lambda>x. \<bar>dec_val x\<bar>) (valid_amounts ?rows)) * 10 ^ 7 < 10 ^ 28
      \<and> sum_list (map (\<lambda>x. \<bar>dec_val x\<bar>) (valid_amounts ?rows)) * 10 ^ 18 < 10 ^ 28
      \<and> (7::nat) \<le> 28"
    unfolding run_example_all_amounts by (simp add: signed_def)
  from t have w: "\<exists>ks. prefix ks (kept_rows 18 10000000000000 ?rows)
      \<and> written_text (prepare_csv (Some ?rows) 18 None) = concat (map written_line ks)"
    by blast
  have wt: "written_text (prepare_csv (Some ?rows) 18 None)
      = ''0xA,1500000000000000000'' @ [CHR 0x0A] @ ''0xD,2000000000000000000'' @ [CHR 0x0A]"
    unfolding run_example by simp
  from t g have c: "\<exists>st'. prepare_csv (Some ?rows) 18 None = Completed st'" by blast
  from t run_example h have v: "dec_val (rescale_half_even (- 10) (dust_total ?st))
      = sum_list (map (\<lambda>r. dec_val (row_amount r)) (dust_rows 18 10000000000000 ?rows))"
    by simp
  have "dec_val (rescale_half_even (- 10) (Finite False 12 (- 7)))
      = sum_list (map (\<lambda>r. dec_val (row_amount r)) (dust_rows 18 10000000000000 ?rows))"
    using v by simp
  then have v': "dec_val (rescale_half_even (- 10) (Finite False 12 (- 7))) = 12 / 10 ^ 7"
    unfolding run_example_dust by (simp add: row_amount_def signed_def)
  from t run_example
  have "printed_dust_total ?st = render_f 10 (rescale_half_even (- 10) (dust_total ?st))"
    by blast
  then have pd: "printed_dust_total ?st = ''0.0000012000''"
    by (simp add: fmt_eval str_eval)
  have p7: "places_le 7 (Finite False 12 (- 7))" by simp
  have b7: "\<bar>dec_val (Finite False 12 (- 7))\<bar> * 10 ^ 7 < 10 ^ 28"
    by (simp add: signed_def)
  from run_example min_scaled_default_18 w wt run_example_dust p7 b7 v' pd c
  show ?thesis by (intro conjI)
qed

text \<open>
  C3 as stated fails, also to the ten decimal places that are printed. A dust total of
  more than 28 significant digits is rounded by the context before it is rounded again
  for printing: the dust amounts \<open>0.00000000005\<close> and \<open>10^-40\<close> are accumulated as
  \<open>0.00000000005\<close>, a tie that is printed as 0.0000000000, whereas their sum rounded to
  ten places is 0.0000000001. A negative amount is always dust, whatever its size: the
  dust amounts \<open>-12345678901234567890\<close> and \<open>0.0000000004\<close> are accumulated and printed
  as -12345678901234567890.0000000000, whereas their sum is
  -12345678901234567889.9999999996.
\<close>

theorem dust_total_printed_counterexample:
  "prepare_csv (Some [[''0xA'', ''0.00000000005''], [''0xB'', ''1e-40'']]) 18 None
   = Completed \<lparr>total_scaled = Finite False 0 0,
        total_original = Finite False 5000000000000000000000000000 (- 38),
        count = 0, dust_count = 2,
        dust_total = Finite False 5000000000000000000000000000 (- 38), f_out = []\<rparr>
   \<and> dust_rows 18 10000000000000 [[''0xA'', ''0.00000000005''], [''0xB'', ''1e-40'']]
      = [(''0xA'', Finite False 5 (- 11), 50000000), (''0xB'', Finite False 1 (- 40), 0)]
   \<and> printed_dust_total \<lparr>total_scaled = Finite False 0 0,
        total_original = Finite False 5000000000000000000000000000 (- 38),
        count = 0, dust_count = 2,
        dust_total = Finite False 5000000000000000000000000000 (- 38), f_out = []\<rparr>
      = ''0.0000000000''
   \<and> dec_val (Finite False 500000000000000000000000000001 (- 40))
      = dec_val (Finite False 5 (- 11)) + dec_val (Finite False 1 (- 40))
   \<and> format_f 10 (Finite False 500000000000000000000000000001 (- 40)) = ''0.0000000001''
   \<and> 1 / 10 ^ 10
      < 2 * \<bar>dec_val (rescale_half_even (- 10) (Finite False 5000000000000000000000000000 (- 38)))
             - (dec_val (Finite False 5 (- 11)) + dec_val (Finite False 1 (- 40)))\<bar>
   \<and> prepare_csv (Some [[''0xA'', ''-12345678901234567890''], [''0xB'', ''0.0000000004'']])
        18 None
   = Completed \<lparr>total_scaled = Finite False 0 0,
        total_original = Finite True 1234567890123456789000000000 (- 8),
        count = 0, dust_count = 2,
        dust_total = Finite True 1234567890123456789000000000 (- 8), f_out = []\<rparr>
   \<and> dust_rows 18 10000000000000
        [[''0xA'', ''-12345678901234567890''], [''0xB'', ''0.0000000004'']]
      = [(''0xA'', Finite True 12345678901234567890 0,
          - 12345678901234567890000000000000000000),
         (''0xB'', Finite False 4 (- 10), 400000000)]
   \<and> printed_dust_total \<lparr>total_scaled = Finite False 0 0,
        total_original = Finite True 1234567890123456789000000000 (- 8),
        count = 0, dust_count = 2,
        dust_total = Finite True 1234567890123456789000000000 (- 8), f_out = []\<rparr>
      = ''-12345678901234567890.0000000000''
   \<and> dec_val (Finite True 123456789012345678899999999996 (- 10))
      = dec_val (Finite True 12345678901234567890 0) + dec_val (Finite False 4 (- 10))
   \<and> format_f 10 (Finite True 123456789012345678899999999996 (- 10))
      = ''-12345678901234567889.9999999996''
   \<and> 4 / 10 ^ 10
      = \<bar>dec_val (rescale_half_even (- 10) (Finite True 1234567890123456789000000000 (- 8)))
         - (dec_val (Finite True 12345678901234567890 0) + dec_val (Finite False 4 (- 10)))\<bar>"
proof -
  have a: "dust_rows 18 10000000000000 [[''0xA'', ''0.00000000005''], [''0xB'', ''1e-40'']]
      = [(''0xA'', Finite False 5 (- 11), 50000000), (''0xB'', Finite False 1 (- 40), 0)]"
    by (simp add: row_eval str_eval dec_eval)
  have b: "printed_dust_total \<lparr>total_scaled = Finite False 0 0,
        total_original = Finite False 5000000000000000000000000000 (- 38),
        count = 0, dust_count = 2,
        dust_total = Finite False 5000000000000000000000000000 (- 38), f_out = []\<rparr>
      = ''0.0000000000''"
    by (simp add: printed_dust_total_def fmt_eval str_eval)
  have c: "dec_val (Finite False 500000000000000000000000000001 (- 40))
      = dec_val (Finite False 5 (- 11)) + dec_val (Finite False 1 (- 40))"
    by (simp add: signed_def)
  have d: "format_f 10 (Finite False 500000000000000000000000000001 (- 40)) = ''0.0000000001''"
    by (simp add: fmt_eval str_eval)
  have e: "1 / 10 ^ 10
      < 2 * \<bar>dec_val (rescale_half_even (- 10) (Finite False 5000000000000000000000000000 (- 38)))
             - (dec_val (Finite False 5 (- 11)) + dec_val (Finite False 1 (- 40)))\<bar>"
    by (simp add: round_half_even_def signed_def)
  have f: "dust_rows 18 10000000000000
        [[''0xA'', ''-12345678901234567890''], [''0xB'', ''0.0000000004'']]
      = [(''0xA'', Finite True 12345678901234567890 0,
          - 12345678901234567890000000000000000000),
         (''0xB'', Finite False 4 (- 10), 400000000)]"
    by (simp add: row_eval str_eval dec_eval)
  have g: "printed_dust_total \<lparr>total_scaled = Finite False 0 0,
        total_original = Finite True 1234567890123456789000000000 (- 8),
        count = 0, dust_count = 2,
        dust_total = Finite True 1234567890123456789000000000 (- 8), f_out = []\<rparr>
      = ''-12345678901234567890.0000000000''"
    by (simp add: printed_dust_total_def fmt_eval str_eval)
  have h: "dec_val (Finite True 123456789012345678899999999996 (- 10))
      = dec_val (Finite True 12345678901234567890 0) + dec_val (Finite False 4 (- 10))"
    by (simp add: signed_def)
  have i: "format_f 10 (Finite True 123456789012345678899999999996 (- 10))
      = ''-12345678901234567889.9999999996''"
    by (simp add: fmt_eval str_eval)
  have j: "4 / 10 ^ 10
      = \<bar>dec_val (rescale_half_even (- 10) (Finite True 1234567890123456789000000000 (- 8)))
         - (dec_val (Finite True 12345678901234567890 0) + dec_val (Finite False 4 (- 10)))\<bar>"
    by (simp add: signed_def)
  from run_dust_tie a b c d e run_dust_large f g h i j show ?thesis by (intro conjI)
qed

text \<open>
  C10, amended. On a completed run the original total is the sum, as the Decimal context
  computes it, of the original amounts of all syntactically valid rows, dust rows
  included, and what is printed is that total rounded half-even to 6 decimal places.
  When every valid amount has at most \<open>k \<le> 28\<close> decimal places and the absolute
  amounts add up to less than \<open>10^(28 - k)\<close>, the original total is the exact sum of
  the valid amounts, which is the exact sum of the kept rows' original amounts plus the
  dust total; with \<open>k \<le> 6\<close> the same holds of the two printed numbers.
\<close>

theorem original_total_is_sum:
  assumes run: "prepare_csv (Some rows) d ma = Completed st"
    and m: "min_scaled_of d (min_amount_of ma) = Inr m"
  shows "dec_sum (valid_amounts rows) = Inr (total_original st)
     \<and> length (valid_amounts rows) = length (filter valid_row rows)
     \<and> printed_original_total st = render_f 6 (rescale_half_even (- 6) (total_original st))
     \<and> ((\<forall>a\<in>set (valid_amounts rows). places_le k a)
          \<and> sum_list (map (\<lambda>a. \<bar>dec_val a\<bar>) (valid_amounts rows)) * 10 ^ k < 10 ^ 28
          \<and> k \<le> 28
         \<longrightarrow> dec_val (total_original st) = sum_list (map dec_val (valid_amounts rows))
             \<and> dec_val (total_original st)
                 = sum_list (map (\<lambda>r. dec_val (row_amount r)) (kept_rows d m rows))
                   + dec_val (dust_total st)
             \<and> (k \<le> 6 \<longrightarrow> dec_val (rescale_half_even (- 6) (total_original st))
                 = sum_list (map (\<lambda>r. dec_val (row_amount r)) (kept_rows d m rows))
                   + dec_val (rescale_half_even (- 10) (dust_total st))))"
proof -
  from run m have pr: "process_rows d m prep_init rows = Inr st"
    by (auto simp: prepare_csv_Completed)
  note inv = process_rows_Inr [OF pr]
  have va: "valid_amounts rows = map row_amount (scaled_rows d rows)"
    using pr by (rule completed_valid_amounts)
  have 1: "dec_sum (valid_amounts rows) = Inr (total_original st)"
    using inv by (simp add: prep_init_def dec_sum_def va)
  have 2: "length (valid_amounts rows) = length (filter valid_row rows)"
    by (rule length_valid_amounts)
  have 3: "printed_original_total st = render_f 6 (rescale_half_even (- 6) (total_original st))"
    by (simp add: printed_original_total_def format_f_def)
  have 4: "dec_val (total_original st) = sum_list (map dec_val (valid_amounts rows))
             \<and> dec_val (total_original st)
                 = sum_list (map (\<lambda>r. dec_val (row_amount r)) (kept_rows d m rows))
                   + dec_val (dust_total st)
             \<and> (k \<le> 6 \<longrightarrow> dec_val (rescale_half_even (- 6) (total_original st))
                 = sum_list (map (\<lambda>r. dec_val (row_amount r)) (kept_rows d m rows))
                   + dec_val (rescale_half_even (- 10) (dust_total st)))"
    if pl: "\<forall>a\<in>set (valid_amounts rows). places_le k a"
      and bd: "sum_list (map (\<lambda>a. \<bar>dec_val a\<bar>) (valid_amounts rows)) * 10 ^ k < 10 ^ 28"
      and k: "k \<le> 28"
  proof -
    from original_total_exact [OF pr pl bd k] have
      v: "dec_val (total_original st) = sum_list (map dec_val (valid_amounts rows))"
      and p: "\<And>p. k \<le> p \<Longrightarrow>
          dec_val (rescale_half_even (- int p) (total_original st)) = dec_val (total_original st)"
      by blast+
    have dpl: "\<forall>r\<in>set (dust_rows d m rows). places_le k (row_amount r)"
      using pl dust_subset [of d m rows] unfolding va by auto
    have "sum_list (map (\<lambda>r. \<bar>dec_val (row_amount r)\<bar>) (dust_rows d m rows))
        \<le> sum_list (map (\<lambda>r. \<bar>dec_val (row_amount r)\<bar>) (scaled_rows d rows))"
      by (rule sum_dust_le) simp
    then have "sum_list (map (\<lambda>r. \<bar>dec_val (row_amount r)\<bar>) (dust_rows d m rows)) * 10 ^ k
        \<le> sum_list (map (\<lambda>r. \<bar>dec_val (row_amount r)\<bar>) (scaled_rows d rows)) * 10 ^ k"
      by (rule mult_right_mono) simp
    moreover have "sum_list (map (\<lambda>r. \<bar>dec_val (row_amount r)\<bar>) (scaled_rows d rows)) * 10 ^ k
        < 10 ^ 28"
      using bd unfolding va by (simp add: comp_def)
    ultimately have dbd:
      "sum_list (map (\<lambda>r. \<bar>dec_val (row_amount r)\<bar>) (dust_rows d m rows)) * 10 ^ k < 10 ^ 28"
      by (rule le_less_trans)
    from dust_total_exact [OF pr dpl dbd k] have
      dv: "dec_val (dust_total st) = sum_list (map (\<lambda>r. dec_val (row_amount r)) (dust_rows d m rows))"
      and dp: "\<And>p. k \<le> p \<Longrightarrow>
          dec_val (rescale_half_even (- int p) (dust_total st)) = dec_val (dust_total st)"
      by blast+
    have split: "sum_list (map dec_val (valid_amounts rows))
        = sum_list (map (\<lambda>r. dec_val (row_amount r)) (kept_rows d m rows))
          + sum_list (map (\<lambda>r. dec_val (row_amount r)) (dust_rows d m rows))"
      unfolding va using sum_kept_dust [of "\<lambda>r. dec_val (row_amount r)" d rows m]
      by (simp add: comp_def)
    have tot: "dec_val (total_original st)
        = sum_list (map (\<lambda>r. dec_val (row_amount r)) (kept_rows d m rows)) + dec_val (dust_total st)"
      unfolding v split dv ..
    have "dec_val (rescale_half_even (- 6) (total_original st))
        = sum_list (map (\<lambda>r. dec_val (row_amount r)) (kept_rows d m rows))
          + dec_val (rescale_half_even (- 10) (dust_total st))" if "k \<le> 6"
      using p [of 6] dp [of 10] that tot by simp
    with v tot show ?thesis by blast
  qed
  from 1 2 3 4 show ?thesis by blast
qed

lemma run_six_places_rows:
  "valid_amounts [[''0xA'', ''1.5''], [''0xB'', ''0.000001'']]
     = [Finite False 15 (- 1), Finite False 1 (- 6)]"
  "kept_rows 18 10000000000000 [[''0xA'', ''1.5''], [''0xB'', ''0.000001'']]
     = [(''0xA'', Finite False 15 (- 1), 1500000000000000000)]"
  by (simp_all add: row_eval str_eval dec_eval)

theorem original_total_is_sum_witness:
  "prepare_csv (Some [[''0xA'', ''1.5''], [''0xB'', ''0.000001'']]) 18 None
   = Completed \<lparr>total_scaled = Finite False 1500000000000000000 0,
        total_original = Finite False 1500001 (- 6), count = 1, dust_count = 1,
        dust_total = Finite False 1 (- 6),
        f_out = ''0xA,1500000000000000000'' @ [CHR 0x0A]\<rparr>
   \<and> min_scaled_of 18 (min_amount_of None) = Inr 10000000000000
   \<and> valid_amounts [[''0xA'', ''1.5''], [''0xB'', ''0.000001'']]
       = [Finite False 15 (- 1), Finite False 1 (- 6)]
   \<and> places_le 6 (Finite False 15 (- 1)) \<and> places_le 6 (Finite False 1 (- 6))
   \<and> (\<bar>dec_val (Finite False 15 (- 1))\<bar> + \<bar>dec_val (Finite False 1 (- 6))\<bar>) * 10 ^ 6 < 10 ^ 28
   \<and> dec_val (rescale_half_even (- 6) (Finite False 1500001 (- 6)))
       = dec_val (Finite False 15 (- 1)) + dec_val (rescale_half_even (- 10) (Finite False 1 (- 6)))
   \<and> render_f 6 (rescale_half_even (- 6) (Finite False 1500001 (- 6))) = ''1.500001''
   \<and> render_f 10 (rescale_half_even (- 10) (Finite False 1 (- 6))) = ''0.0000010000''"
proof -
  note t = original_total_is_sum [OF run_six_places min_scaled_default_18, of 6]
  have h: "(\<forall>a\<in>set (valid_amounts [[''0xA'', ''1.5''], [''0xB'', ''0.000001'']]). places_le 6 a)
      \<and> sum_list (map (\<lambda>a. \<bar>dec_val a\<bar>) (valid_amounts [[''0xA'', ''1.5''],
          [''0xB'', ''0.000001'']])) * 10 ^ 6 < 10 ^ 28
      \<and> (6::nat) \<le> 28"
    unfolding run_six_places_rows by (simp add: signed_def)
  from t h have "dec_val (rescale_half_even (- 6) (Finite False 1500001 (- 6)))
      = sum_list (map (\<lambda>r. dec_val (row_amount r))
          (kept_rows 18 10000000000000 [[''0xA'', ''1.5''], [''0xB'', ''0.000001'']]))
        + dec_val (rescale_half_even (- 10) (Finite False 1 (- 6)))"
    by simp
  then have v: "dec_val (rescale_half_even (- 6) (Finite False 1500001 (- 6)))
       = dec_val (Finite False 15 (- 1)) + dec_val (rescale_half_even (- 10) (Finite False 1 (- 6)))"
    unfolding run_six_places_rows by (simp add: row_amount_def)
  have p1: "render_f 6 (rescale_half_even (- 6) (Finite False 1500001 (- 6))) = ''1.500001''"
    by (simp add: fmt_eval str_eval)
  have p2: "render_f 10 (rescale_half_even (- 10) (Finite False 1 (- 6))) = ''0.0000010000''"
    by (simp add: fmt_eval str_eval)
  have b: "(\<bar>dec_val (Finite False 15 (- 1))\<bar> + \<bar>dec_val (Finite False 1 (- 6))\<bar>) * 10 ^ 6 < 10 ^ 28"
    by (simp add: signed_def)
  have pl: "places_le 6 (Finite False 15 (- 1))" "places_le 6 (Finite False 1 (- 6))" by simp_all
  from run_six_places min_scaled_default_18 run_six_places_rows(1) pl b v p1 p2
  show ?thesis by blast
qed

text \<open>
  C10 as stated fails. The original total is printed with 6 decimal places and the dust
  total with 10: for the amounts 1 and 0.0000012 the printed original total is 1.000001,
  which is neither the sum 1.0000012 of the valid amounts nor the kept amount plus the
  printed dust total. And an original total of more than 28 significant digits is rounded
  by the context: \<open>1 + 10^-28\<close> is accumulated as 1.
\<close>

theorem original_total_printed_counterexample:
  "prepare_csv (Some [[''0xA'', ''1''], [''0xB'', ''0.0000012'']]) 18 None
   = Completed \<lparr>total_scaled = Finite False 1000000000000000000 0,
        total_original = Finite False 10000012 (- 7), count = 1, dust_count = 1,
        dust_total = Finite False 12 (- 7),
        f_out = ''0xA,1000000000000000000'' @ [CHR 0x0A]\<rparr>
   \<and> valid_amounts [[''0xA'', ''1''], [''0xB'', ''0.0000012'']]
       = [Finite False 1 0, Finite False 12 (- 7)]
   \<and> format_f 6 (Finite False 10000012 (- 7)) = ''1.000001''
   \<and> format_f 10 (Finite False 12 (- 7)) = ''0.0000012000''
   \<and> dec_val (rescale_half_even (- 6) (Finite False 10000012 (- 7))) = 1000001 / 1000000
   \<and> dec_val (Finite False 1 0) + dec_val (Finite False 12 (- 7)) = 10000012 / 10000000
   \<and> dec_val (Finite False 1 0) + dec_val (rescale_half_even (- 10) (Finite False 12 (- 7)))
       = 10000012 / 10000000
   \<and> prepare_csv (Some [[''0xA'', ''1''], [''0xB'', ''1e-28'']]) 18 None
   = Completed \<lparr>total_scaled = Finite False 1000000000000000000 0,
        total_original = Finite False 1000000000000000000000000000 (- 27),
        count = 1, dust_count = 1, dust_total = Finite False 1 (- 28),
        f_out = ''0xA,1000000000000000000'' @ [CHR 0x0A]\<rparr>
   \<and> valid_amounts [[''0xA'', ''1''], [''0xB'', ''1e-28'']]
       = [Finite False 1 0, Finite False 1 (- 28)]
   \<and> dec_val (Finite False 1000000000000000000000000000 (- 27))
       \<noteq> dec_val (Finite False 1 0) + dec_val (Finite False 1 (- 28))"
proof -
  have a: "valid_amounts [[''0xA'', ''1''], [''0xB'', ''0.0000012'']]
       = [Finite False 1 0, Finite False 12 (- 7)]"
    by (simp add: row_eval str_eval dec_eval)
  have b: "format_f 6 (Finite False 10000012 (- 7)) = ''1.000001''"
    "format_f 10 (Finite False 12 (- 7)) = ''0.0000012000''"
    by (simp_all add: fmt_eval str_eval)
  have c: "dec_val (rescale_half_even (- 6) (Finite False 10000012 (- 7))) = 1000001 / 1000000"
    "dec_val (Finite False 1 0) + dec_val (Finite False 12 (- 7)) = 10000012 / 10000000"
    "dec_val (Finite False 1 0) + dec_val (rescale_half_even (- 10) (Finite False 12 (- 7)))
       = 10000012 / 10000000"
    by (simp_all add: round_half_even_def signed_def)
  have d: "valid_amounts [[''0xA'', ''1''], [''0xB'', ''1e-28'']]
       = [Finite False 1 0, Finite False 1 (- 28)]"
    by (simp add: row_eval str_eval dec_eval)
  have e: "dec_val (Finite False 1000000000000000000000000000 (- 27))
       \<noteq> dec_val (Finite False 1 0) + dec_val (Finite False 1 (- 28))"
    by (simp add: signed_def)
  from run_seven_places a b c run_total_rounded d e show ?thesis by blast
qed

section \<open>Properties of the main program\<close>

lemma run_prepare_symbol_reply [simp]:
  "run_prepare (w\<lparr>symbol_reply := r\<rparr>) i d out mn = run_prepare w i d out mn"
  by (simp add: run_prepare_def)

lemma fetch_token_info_symbol_reply:
  "fetch_token_info (w\<lparr>symbol_reply := r\<rparr>)
     = (case fetch_token_info w of
          (calls, Inl err) \<Rightarrow> (calls, Inl err)
        | (calls, Inr (decimals, symbol)) \<Rightarrow> (calls, Inr (decimals, get_token_symbol r)))"
  by (simp add: fetch_token_info_def split: sum.split)

lemma main_symbol_reply_ending: "snd (main (w\<lparr>symbol_reply := r\<rparr>)) = snd (main w)"
  by (auto simp: main_def Let_def fetch_token_info_symbol_reply
      split: sum.split prod.split)


text \<open>
  C4. Once the arguments and \<^verbatim>\<open>RPC_URL\<close> are in order: how the run ends does not
  depend on the reply to the symbol query; every exception inside
  \<^verbatim>\<open>get_token_symbol\<close>, and a reply with no answer, an RPC error, a missing or empty
  result or a result of fewer than 128 hexadecimal digits, gives the symbol
  \<^verbatim>\<open>"UNKNOWN"\<close>, which is printed before the run goes on to \<^verbatim>\<open>prepare_csv\<close>; and every
  failure of the decimals query ends the run with the error message and status 1, before
  the symbol is queried and before any file is opened.
\<close>

theorem symbol_failure_tolerated:
  assumes args: "3 \<le> length (argv w)" "parse_optional (drop 3 (argv w)) (None, None) = Inr (out, mn)"
    and url: "rpc_url w = Some u" "u \<noteq> []"
  shows "snd (main (w\<lparr>symbol_reply := r\<rparr>)) = snd (main w)
     \<and> (symbol_try r = Inl e \<longrightarrow> get_token_symbol r = ''UNKNOWN'')
     \<and> get_token_symbol NoReply = ''UNKNOWN''
     \<and> (has_error j = Inr True \<longrightarrow> get_token_symbol (Reply j) = ''UNKNOWN'')
     \<and> (has_error j = Inr False \<and> get_result j = Inr v \<and> \<not> truthy v \<longrightarrow>
          get_token_symbol (Reply j) = ''UNKNOWN'')
     \<and> (has_error j = Inr False \<and> get_result j = Inr (JStr s) \<and> length (drop 2 s) < 128 \<longrightarrow>
          get_token_symbol (Reply j) = ''UNKNOWN'')
     \<and> (request_ok w \<and> get_token_decimals (decimals_reply w) = Inr dec \<longrightarrow>
          (\<exists>evs. fst (main w)
             = [Print (FetchingTokenInfo (argv w ! 2)), EthCall ''0x313ce567'', EthCall ''0x95d89b41'',
                Print (TokenSymbol (get_token_symbol (symbol_reply w))), Print (TokenDecimals dec),
                Print BlankLine] @ evs)
          \<and> main w = (fst (main w), snd (run_prepare w (argv w ! 1) dec out mn)))
     \<and> (request_ok w \<and> get_token_decimals (decimals_reply w) = Inl e \<longrightarrow>
          main w = ([Print (FetchingTokenInfo (argv w ! 2)), EthCall ''0x313ce567'',
                     Print (ErrorFetchingTokenInfo e)], Exit 1))
     \<and> (\<not> request_ok w \<longrightarrow>
          main w = ([Print (FetchingTokenInfo (argv w ! 2)),
                     Print (ErrorFetchingTokenInfo ValueError)], Exit 1))"
proof -
  have 1: "snd (main (w\<lparr>symbol_reply := r\<rparr>)) = snd (main w)"
    by (rule main_symbol_reply_ending)
  have 2: "symbol_try r = Inl e \<longrightarrow> get_token_symbol r = ''UNKNOWN''"
    by (simp add: get_token_symbol_def)
  have 3: "get_token_symbol NoReply = ''UNKNOWN''"
    by (simp add: get_token_symbol_def symbol_try_def)
  have 4: "has_error j = Inr True \<longrightarrow> get_token_symbol (Reply j) = ''UNKNOWN''"
    by (simp add: get_token_symbol_def symbol_try_def)
  have 5: "has_error j = Inr False \<and> get_result j = Inr v \<and> \<not> truthy v \<longrightarrow>
          get_token_symbol (Reply j) = ''UNKNOWN''"
    by (simp add: get_token_symbol_def symbol_try_def)
  have 6: "has_error j = Inr False \<and> get_result j = Inr (JStr s) \<and> length (drop 2 s) < 128 \<longrightarrow>
          get_token_symbol (Reply j) = ''UNKNOWN''"
    by (simp add: get_token_symbol_def symbol_try_def Let_def)
  have pre: "\<not> length (argv w) < 3" "\<not> (rpc_url w = None \<or> rpc_url w = Some [])"
    using args url by simp_all
  have 7: "(\<exists>evs. fst (main w)
             = [Print (FetchingTokenInfo (argv w ! 2)), EthCall ''0x313ce567'', EthCall ''0x95d89b41'',
                Print (TokenSymbol (get_token_symbol (symbol_reply w))), Print (TokenDecimals dec),
                Print BlankLine] @ evs)
          \<and> main w = (fst (main w), snd (run_prepare w (argv w ! 1) dec out mn))"
    if "request_ok w" "get_token_decimals (decimals_reply w) = Inr dec"
    using that pre args(2)
    by (simp add: main_def Let_def fetch_token_info_def split: prod.split)
  have 8: "main w = ([Print (FetchingTokenInfo (argv w ! 2)), EthCall ''0x313ce567'',
                     Print (ErrorFetchingTokenInfo e)], Exit 1)"
    if "request_ok w" "get_token_decimals (decimals_reply w) = Inl e"
    using that pre args(2) by (simp add: main_def Let_def fetch_token_info_def)
  have 9: "main w = ([Print (FetchingTokenInfo (argv w ! 2)),
                     Print (ErrorFetchingTokenInfo ValueError)], Exit 1)"
    if "\<not> request_ok w"
    using that pre args(2) by (simp add: main_def Let_def fetch_token_info_def)
  from 1 2 3 4 5 6 7 8 9 show ?thesis by blast
qed

lemmas rpc_eval = get_token_decimals_def symbol_try_def get_token_symbol_def int_base16_def
  hex_val_def py_slice_def is_c_space_def cont_byte_def byte_char_def strip_nul_def

lemmas main_eval = main_def fetch_token_info_def run_prepare_def


end
